theory Spec2Isabelle
  imports Complex_Main "HOL-Library.Word"
begin

section \<open>Single-precision data\<close>

text \<open>
  A C \<open>float\<close> on the SSE target is an IEEE-754 binary32 datum. The model keeps the
  three fields of a finite number as they lie in memory: the sign bit (\<open>True\<close> is
  negative), the biased exponent field (0 to 254) and the fraction field (below
  \<open>2 ^ 23\<close>). The two infinities are separate values. All NaN bit patterns are one
  value \<open>NaN\<close>: which payload a NaN result carries depends on the operand order the
  compiler picks for the instruction, so the C source fixes a result only up to the
  payload.
\<close>

datatype float32 = NaN | Inf bool | Fin bool nat nat

fun valid :: "float32 \<Rightarrow> bool" where
  "valid (Fin s e f) = (e < 255 \<and> f < 2 ^ 23)"
| "valid _ = True"

fun is_finite :: "float32 \<Rightarrow> bool" where
  "is_finite (Fin s e f) = True"
| "is_finite _ = False"

fun is_zero :: "float32 \<Rightarrow> bool" where
  "is_zero (Fin s e f) = (e = 0 \<and> f = 0)"
| "is_zero _ = False"

fun is_normal :: "float32 \<Rightarrow> bool" where
  "is_normal (Fin s e f) = (1 \<le> e \<and> e < 255 \<and> f < 2 ^ 23)"
| "is_normal _ = False"

text \<open>
  A finite datum with fields \<open>e\<close>, \<open>f\<close> denotes \<open>significand e f * 2 ^ exponent e\<close>
  with the sign in front: the hidden bit is set unless the exponent field is 0
  (zero and the subnormal numbers).
\<close>

definition significand :: "nat \<Rightarrow> nat \<Rightarrow> nat" where
  "significand e f = (if e = 0 then f else 2 ^ 23 + f)"

definition exponent :: "nat \<Rightarrow> int" where
  "exponent e = (if e = 0 then - 149 else int e - 150)"

fun valof :: "float32 \<Rightarrow> real" where
  "valof (Fin s e f) =
     (if s then - 1 else 1) * real (significand e f) * 2 powr real_of_int (exponent e)"
| "valof _ = 0"

fun bitlen :: "nat \<Rightarrow> nat" where
  "bitlen n = (if n = 0 then 0 else Suc (bitlen (n div 2)))"

declare bitlen.simps [simp del]

text \<open>
  \<open>rne_shift m k\<close> is \<open>m / 2 ^ k\<close> rounded to the nearest integer, a tie going to
  the even neighbour: the default rounding mode of the MXCSR register.
\<close>

definition rne_shift :: "nat \<Rightarrow> nat \<Rightarrow> nat" where
  "rne_shift m k =
     (let q = m div 2 ^ k; r = m mod 2 ^ k; h = 2 ^ (k - 1)
      in if k = 0 then m
         else if h < r \<or> (r = h \<and> odd q) then q + 1 else q)"

text \<open>
  \<open>round32 s m x\<close> is the binary32 datum nearest to the exact value
  \<open>m * 2 ^ x\<close> of sign \<open>s\<close>. \<open>E\<close> is the weight of the last significand bit the
  result keeps: 24 bits below the leading bit of the value, and never below
  \<open>- 149\<close>, where the subnormal numbers end. A significand that rounds up to
  \<open>2 ^ 24\<close> moves to the next exponent; an exponent field of 255 is an overflow, which
  rounds to infinity.
\<close>

definition round32 :: "bool \<Rightarrow> nat \<Rightarrow> int \<Rightarrow> float32" where
  "round32 s m x =
     (if m = 0 then Fin s 0 0
      else
        let E = max (int (bitlen m) + x - 24) (- 149);
            q = (if E \<le> x then m * 2 ^ nat (x - E) else rne_shift m (nat (E - x)));
            E' = (if q = 2 ^ 24 then E + 1 else E);
            q' = (if q = 2 ^ 24 then 2 ^ 23 else q)
        in if 104 < E' then Inf s
           else if q' < 2 ^ 23 then Fin s 0 q'
           else Fin s (nat (E' + 150)) (q' - 2 ^ 23))"

text \<open>
  Modelled from the spec: the scalar operation inside \<open>_mm_mul_ps\<close> of
  \<open>emmintrin.h\<close>, which is not a file of the repository. The spec names it
  "standard IEEE-754 single-precision multiplication": a NaN operand gives NaN,
  zero times infinity gives NaN, any other product with an infinity is an infinity,
  and a product of finite numbers is the exact product, rounded once. The sign of
  a result that is not NaN is the exclusive or of the operands' signs. Subnormal
  operands and results are kept: MXCSR is in its default state, without
  flush-to-zero and without denormals-are-zero.
\<close>

fun fmul :: "float32 \<Rightarrow> float32 \<Rightarrow> float32" where
  "fmul NaN y = NaN"
| "fmul (Inf s) NaN = NaN"
| "fmul (Inf s) (Inf t) = Inf (s \<noteq> t)"
| "fmul (Inf s) (Fin t e f) = (if significand e f = 0 then NaN else Inf (s \<noteq> t))"
| "fmul (Fin s e f) NaN = NaN"
| "fmul (Fin s e f) (Inf t) = (if significand e f = 0 then NaN else Inf (s \<noteq> t))"
| "fmul (Fin s e f) (Fin t e' f') =
     round32 (s \<noteq> t) (significand e f * significand e' f') (exponent e + exponent e')"

text \<open>Constants of the examples: \<open>dyadic m x\<close> is the datum of value \<open>m * 2 ^ x\<close>.\<close>

definition dyadic :: "nat \<Rightarrow> int \<Rightarrow> float32" where
  "dyadic m x = round32 False m x"

section \<open>Memory and the vector intrinsics\<close>

text \<open>
  Both buffers live in one memory of \<open>float\<close> slots, so that a pointer is the index
  of a slot and \<open>p + k\<close> is pointer arithmetic. The state also logs, in program
  order, every slot a load reads and every slot a store writes, and counts the
  iterations of the block loop; the log and the counter are never read by the
  program.
\<close>

type_synonym addr = nat

record state =
  mem :: "addr \<Rightarrow> float32"
  loads :: "addr list"
  stores :: "addr list"
  iters :: nat

type_synonym m128 = "float32 \<times> float32 \<times> float32 \<times> float32"

text \<open>
  Modelled from the spec: the intrinsics of \<open>emmintrin.h\<close> (broadcast, unaligned
  load and store, lane-wise multiply, pairwise interleave of the low and of the
  high halves), which is not a file of the repository. Lane 0 is the lowest
  address; the lane pictures in the comments of \<open>mix.c\<close> give the same layout.
\<close>

definition mm_set1_ps :: "float32 \<Rightarrow> m128" where
  "mm_set1_ps a = (a, a, a, a)"

definition mm_loadu_ps :: "addr \<Rightarrow> state \<Rightarrow> m128 \<times> state" where
  "mm_loadu_ps p s =
     ((mem s p, mem s (p + 1), mem s (p + 2), mem s (p + 3)),
      s\<lparr>loads := loads s @ [p, p + 1, p + 2, p + 3]\<rparr>)"

definition mm_mul_ps :: "m128 \<Rightarrow> m128 \<Rightarrow> m128" where
  "mm_mul_ps a b =
     (case a of (a0, a1, a2, a3) \<Rightarrow> case b of (b0, b1, b2, b3) \<Rightarrow>
        (fmul a0 b0, fmul a1 b1, fmul a2 b2, fmul a3 b3))"

definition mm_unpacklo_ps :: "m128 \<Rightarrow> m128 \<Rightarrow> m128" where
  "mm_unpacklo_ps a b =
     (case a of (a0, a1, a2, a3) \<Rightarrow> case b of (b0, b1, b2, b3) \<Rightarrow> (a0, b0, a1, b1))"

definition mm_unpackhi_ps :: "m128 \<Rightarrow> m128 \<Rightarrow> m128" where
  "mm_unpackhi_ps a b =
     (case a of (a0, a1, a2, a3) \<Rightarrow> case b of (b0, b1, b2, b3) \<Rightarrow> (a2, b2, a3, b3))"

definition mm_storeu_ps :: "addr \<Rightarrow> m128 \<Rightarrow> state \<Rightarrow> state" where
  "mm_storeu_ps p v s =
     (case v of (v0, v1, v2, v3) \<Rightarrow>
        s\<lparr>mem := (mem s)(p := v0, p + 1 := v1, p + 2 := v2, p + 3 := v3),
          stores := stores s @ [p, p + 1, p + 2, p + 3]\<rparr>)"

section \<open>The kernel\<close>

text \<open>
  One pass of the loop body of \<open>mix_mono_to_stereo_intrinsics\<close>. The index \<open>i\<close> is
  a \<open>uint32_t\<close>, and so are \<open>2 * i + 0\<close> and \<open>2 * i + 4\<close>: the \<open>int\<close> constants are
  converted to \<open>unsigned int\<close>, and the sums are taken modulo \<open>2 ^ 32\<close> before they
  are added to the pointer.
\<close>

definition mix_block :: "addr \<Rightarrow> addr \<Rightarrow> m128 \<Rightarrow> m128 \<Rightarrow> 32 word \<Rightarrow> state \<Rightarrow> state" where
  "mix_block dst src mul_l mul_r i s =
     (case mm_loadu_ps (src + unat i) s of (inp, s1) \<Rightarrow>
        let out_l = mm_mul_ps inp mul_l;
            out_r = mm_mul_ps inp mul_r;
            out_lo = mm_unpacklo_ps out_l out_r;
            out_hi = mm_unpackhi_ps out_l out_r;
            s2 = mm_storeu_ps (dst + unat (2 * i + 0)) out_lo s1;
            s3 = mm_storeu_ps (dst + unat (2 * i + 4)) out_hi s2
        in s3\<lparr>iters := Suc (iters s3)\<rparr>)"

text \<open>
  The loop \<open>for (uint32_t i = 0; i < num_samples; i += 4)\<close>, entered at index \<open>i\<close>.
  \<open>i += 4\<close> wraps around, so the loop is a partial function: \<open>None\<close> is a run that
  never leaves the loop.
\<close>

partial_function (option) mix_loop ::
  "32 word \<Rightarrow> addr \<Rightarrow> addr \<Rightarrow> m128 \<Rightarrow> m128 \<Rightarrow> 32 word \<Rightarrow> state \<Rightarrow> state option" where
  "mix_loop num_samples dst src mul_l mul_r i s =
     (if i < num_samples
      then mix_loop num_samples dst src mul_l mul_r (i + 4) (mix_block dst src mul_l mul_r i s)
      else Some s)"

datatype error = Assertion_failed

text \<open>
  The call. A failed \<open>assert\<close> aborts the process: the result is the error together
  with the state at that point. \<open>Some (Inr s')\<close> is a call that returns in state \<open>s'\<close>.
\<close>

definition mix_mono_to_stereo_intrinsics ::
  "32 word \<Rightarrow> addr \<Rightarrow> addr \<Rightarrow> float32 \<Rightarrow> float32 \<Rightarrow> state \<Rightarrow> (error \<times> state + state) option" where
  "mix_mono_to_stereo_intrinsics num_samples dst src gain_l gain_r s =
     (if num_samples mod 4 \<noteq> 0 then Some (Inl (Assertion_failed, s))
      else
        let mul_l = mm_set1_ps gain_l;
            mul_r = mm_set1_ps gain_r
        in map_option Inr (mix_loop num_samples dst src mul_l mul_r 0 s))"

section \<open>Definitions for the statements\<close>

text \<open>
  \<open>blocks k\<close> is the state after \<open>k\<close> passes of the loop body that start at index \<open>i\<close>: the
  loop, unrolled \<open>k\<close> times, without its exit test.
\<close>

primrec blocks :: "nat \<Rightarrow> addr \<Rightarrow> addr \<Rightarrow> m128 \<Rightarrow> m128 \<Rightarrow> 32 word \<Rightarrow> state \<Rightarrow> state" where
  "blocks 0 dst src mul_l mul_r i s = s"
| "blocks (Suc k) dst src mul_l mul_r i s =
     blocks k dst src mul_l mul_r (i + 4) (mix_block dst src mul_l mul_r i s)"

text \<open>The \<open>len\<close> slots of a buffer that starts at \<open>p\<close>, as a list.\<close>

definition buffer :: "state \<Rightarrow> addr \<Rightarrow> nat \<Rightarrow> float32 list" where
  "buffer s p len = map (\<lambda>k. mem s (p + k)) [0 ..< len]"

text \<open>The content of slot \<open>a\<close> after a call that returned; \<open>None\<close> for any other outcome.\<close>

definition returned_mem :: "(error \<times> state + state) option \<Rightarrow> addr \<Rightarrow> float32 option" where
  "returned_mem r a = (case r of Some (Inr s') \<Rightarrow> Some (mem s' a) | _ \<Rightarrow> None)"

text \<open>
  The scaling of the scale-invariance property, in the words of the spec: every element
  of the buffer of \<open>len\<close> slots at \<open>p\<close> is multiplied by the constant \<open>k\<close>. It is not
  part of \<open>mix.c\<close>. \<open>then_scale\<close> applies it to the state a call returned.
\<close>

definition scale_buffer :: "float32 \<Rightarrow> addr \<Rightarrow> nat \<Rightarrow> state \<Rightarrow> state" where
  "scale_buffer k p len s =
     s\<lparr>mem := (\<lambda>a. if p \<le> a \<and> a < p + len then fmul (mem s a) k else mem s a)\<rparr>"

definition then_scale ::
  "float32 \<Rightarrow> addr \<Rightarrow> nat \<Rightarrow> (error \<times> state + state) option \<Rightarrow> (error \<times> state + state) option" where
  "then_scale k p len r = map_option (map_sum id (scale_buffer k p len)) r"

text \<open>
  \<open>in_range a b\<close>: the product of the finite data \<open>a\<close> and \<open>b\<close> neither overflows nor
  underflows; it is a normal number, or one factor is a zero. \<open>scale_safe x k g\<close> asks
  this of the four products formed when a sample \<open>x\<close> is scaled by \<open>k\<close> before or after it
  is multiplied by the gain \<open>g\<close>.
\<close>

definition in_range :: "float32 \<Rightarrow> float32 \<Rightarrow> bool" where
  "in_range a b = (is_finite a \<and> is_finite b \<and> (is_zero a \<or> is_zero b \<or> is_normal (fmul a b)))"

definition scale_safe :: "float32 \<Rightarrow> float32 \<Rightarrow> float32 \<Rightarrow> bool" where
  "scale_safe x k g =
     (in_range x k \<and> in_range (fmul x k) g \<and> in_range x g \<and> in_range (fmul x g) k)"

text \<open>
  Two results agree up to rounding when both are finite and differ by at most
  \<open>2 ^ - 21\<close> of the magnitude of the exact value \<open>p\<close> they approximate.
\<close>

definition agree_up_to_rounding :: "float32 \<Rightarrow> float32 \<Rightarrow> real \<Rightarrow> bool" where
  "agree_up_to_rounding a b p =
     (is_finite a \<and> is_finite b \<and> \<bar>valof a - valof b\<bar> \<le> \<bar>p\<bar> / 2 ^ 21)"

text \<open>The sign bit as a factor.\<close>

definition sgn_of :: "bool \<Rightarrow> real" where
  "sgn_of s = (if s then - 1 else 1)"

subsection \<open>Example states\<close>

text \<open>
  \<open>ramp_state\<close> holds 1.0, 2.0, 3.0, 4.0 in slots 0 to 3 and 0.0 elsewhere.
  \<open>special_state\<close> holds 1.0, -2.0, plus infinity and then NaN everywhere.
  \<open>max_state\<close> holds the largest finite number in every slot.
  \<open>big_state\<close> holds 2.0 in slot \<open>2 ^ 31\<close> and 1.0 elsewhere.
  \<open>tenth_state\<close> holds the binary32 number nearest to 0.1 in every slot.
\<close>

definition ramp_state :: state where
  "ramp_state =
     \<lparr>mem = (\<lambda>a. if a = 0 then dyadic 1 0 else if a = 1 then dyadic 2 0
                  else if a = 2 then dyadic 3 0 else if a = 3 then dyadic 4 0
                  else Fin False 0 0),
      loads = [], stores = [], iters = 0\<rparr>"

definition special_state :: state where
  "special_state =
     \<lparr>mem = (\<lambda>a. if a = 0 then dyadic 1 0 else if a = 1 then Fin True 128 0
                  else if a = 2 then Inf False else NaN),
      loads = [], stores = [], iters = 0\<rparr>"

definition max_state :: state where
  "max_state = \<lparr>mem = (\<lambda>a. Fin False 254 8388607), loads = [], stores = [], iters = 0\<rparr>"

definition tenth_state :: state where
  "tenth_state = \<lparr>mem = (\<lambda>a. Fin False 123 5033165), loads = [], stores = [], iters = 0\<rparr>"

definition big_state :: state where
  "big_state =
     \<lparr>mem = (\<lambda>a. if a = 2147483648 then dyadic 2 0 else dyadic 1 0),
      loads = [], stores = [], iters = 0\<rparr>"

section \<open>The index arithmetic\<close>

text \<open>
  The sample count and the loop index are 32-bit words. These facts read them as
  natural numbers: an index that is a multiple of 4 can be advanced by 4 below the
  count without wrapping, while the destination offset \<open>2 * i\<close> is taken modulo
  \<open>2 ^ 32\<close> and stays a multiple of 8.
\<close>

lemma mod4_unat: "((n :: 32 word) mod 4 = 0) = (unat n mod 4 = 0)"
proof -
  have "(n mod 4 = 0) = (unat (n mod 4) = 0)" by (simp add: unat_eq_0)
  then show ?thesis by (simp add: unat_mod)
qed

lemma unat_plus4: "unat (i :: 32 word) + 4 < 2 ^ 32 \<Longrightarrow> unat (i + 4) = unat i + 4"
  using unat_add_lem [of i 4] by simp

lemma unat_twice: "unat (2 * i :: 32 word) = (2 * unat i) mod 2 ^ 32"
  by (simp add: unat_word_ariths)

lemma unat_twice_small: "unat (i :: 32 word) < 2 ^ 31 \<Longrightarrow> unat (2 * i) = 2 * unat i"
  by (simp add: unat_twice)

lemma offset_mod8: "unat (i :: 32 word) mod 4 = 0 \<Longrightarrow> unat (2 * i) mod 8 = 0"
proof -
  assume a: "unat i mod 4 = 0"
  have "(8::nat) dvd 2 ^ 32" by simp
  then have "(2 * unat i) mod 2 ^ 32 mod 8 = (2 * unat i) mod 8"
    by (rule mod_mod_cancel)
  also have "\<dots> = 0" using a by presburger
  finally show ?thesis by (simp add: unat_twice)
qed

lemma mult8_room: "(m::nat) < 2 ^ 32 \<Longrightarrow> m mod 8 = 0 \<Longrightarrow> m + 8 \<le> 2 ^ 32"
proof -
  assume "m < 2 ^ 32" "m mod 8 = 0"
  then have "m < 4294967296" "m mod 8 = 0" by simp_all
  then have "m + 8 \<le> 4294967296" by presburger
  then show ?thesis by simp
qed

lemma offset_hi: 
  assumes "unat (i :: 32 word) mod 4 = 0"
  shows "unat (2 * i + 4) = unat (2 * i) + 4"
proof -
  have "unat (2 * i) < 2 ^ 32" using unsigned_less [of "2 * i"] by simp
  moreover have "unat (2 * i) mod 8 = 0" using assms by (rule offset_mod8)
  ultimately have "unat (2 * i) + 8 \<le> 2 ^ 32" by (rule mult8_room)
  then have "unat (2 * i) + 4 < 2 ^ 32" by simp
  then show ?thesis by (rule unat_plus4)
qed

lemma offset_bound:
  assumes "unat (i :: 32 word) mod 4 = 0" "unat i < unat (n :: 32 word)" "unat n mod 4 = 0"
  shows "unat (2 * i) + 8 \<le> 2 * unat n"
proof (cases "unat i < 2 ^ 31")
  case True
  then have "unat (2 * i) = 2 * unat i" by (rule unat_twice_small)
  moreover have "unat i + 4 \<le> unat n" using assms by presburger
  ultimately show ?thesis by simp
next
  case False
  have "unat (2 * i) < 2 ^ 32" using unsigned_less [of "2 * i"] by simp
  moreover have "unat (2 * i) mod 8 = 0" using assms(1) by (rule offset_mod8)
  ultimately have "unat (2 * i) + 8 \<le> 2 ^ 32" by (rule mult8_room)
  then show ?thesis using False assms(2) by simp
qed

section \<open>One pass of the loop body\<close>

lemmas intrinsics_defs = mm_set1_ps_def mm_loadu_ps_def mm_mul_ps_def mm_unpacklo_ps_def
  mm_unpackhi_ps_def mm_storeu_ps_def

lemma mix_block_iters: "iters (mix_block dst src mul_l mul_r i s) = Suc (iters s)"
  by (simp add: mix_block_def intrinsics_defs Let_def split: prod.splits)

lemma mix_block_loads:
  "loads (mix_block dst src mul_l mul_r i s)
     = loads s @ [src + unat i, src + unat i + 1, src + unat i + 2, src + unat i + 3]"
  by (simp add: mix_block_def intrinsics_defs Let_def split: prod.splits)

lemma mix_block_stores:
  "stores (mix_block dst src mul_l mul_r i s)
     = stores s @ [dst + unat (2 * i), dst + unat (2 * i) + 1, dst + unat (2 * i) + 2,
                   dst + unat (2 * i) + 3, dst + unat (2 * i + 4), dst + unat (2 * i + 4) + 1,
                   dst + unat (2 * i + 4) + 2, dst + unat (2 * i + 4) + 3]"
  by (simp add: mix_block_def intrinsics_defs Let_def split: prod.splits)

lemma mix_block_mem:
  "mem (mix_block dst src (mm_set1_ps gain_l) (mm_set1_ps gain_r) i s)
     = (mem s)
       (dst + unat (2 * i) := fmul (mem s (src + unat i)) gain_l,
        dst + unat (2 * i) + 1 := fmul (mem s (src + unat i)) gain_r,
        dst + unat (2 * i) + 2 := fmul (mem s (src + unat i + 1)) gain_l,
        dst + unat (2 * i) + 3 := fmul (mem s (src + unat i + 1)) gain_r,
        dst + unat (2 * i + 4) := fmul (mem s (src + unat i + 2)) gain_l,
        dst + unat (2 * i + 4) + 1 := fmul (mem s (src + unat i + 2)) gain_r,
        dst + unat (2 * i + 4) + 2 := fmul (mem s (src + unat i + 3)) gain_l,
        dst + unat (2 * i + 4) + 3 := fmul (mem s (src + unat i + 3)) gain_r)"
  by (simp add: mix_block_def intrinsics_defs Let_def split: prod.splits)

text \<open>The slots one pass writes, and the slots it leaves alone.\<close>

lemma mix_block_frame:
  assumes "unat i mod 4 = 0"
      and "a < dst + unat (2 * i) \<or> dst + unat (2 * i) + 8 \<le> a"
  shows "mem (mix_block dst src (mm_set1_ps gain_l) (mm_set1_ps gain_r) i s) a = mem s a"
  using assms(2) by (auto simp add: mix_block_mem offset_hi [OF assms(1)])

lemma mix_block_value:
  assumes "unat i mod 4 = 0" and "j < 8"
  shows "mem (mix_block dst src (mm_set1_ps gain_l) (mm_set1_ps gain_r) i s) (dst + unat (2 * i) + j)
           = fmul (mem s (src + unat i + j div 2)) (if even j then gain_l else gain_r)"
proof -
  from assms(2) consider "j = 0" | "j = 1" | "j = 2" | "j = 3" | "j = 4" | "j = 5" | "j = 6" | "j = 7"
    by linarith
  then show ?thesis
    by cases (simp_all add: mix_block_mem offset_hi [OF assms(1)])
qed

section \<open>Runs of the loop\<close>

text \<open>
  A call with a count that is a multiple of 4 leaves the loop after \<open>num_samples / 4\<close>
  passes, in the state \<open>blocks\<close> computes.
\<close>

lemma upt_four: "[u ..< u + 4] = [u, u + 1, u + 2, u + 3]"
  by (simp add: upt_conv_Cons)

lemma upt_eight: "[u ..< u + 8] = [u, u + 1, u + 2, u + 3, u + 4, u + 5, u + 6, u + 7]"
  by (simp add: upt_conv_Cons)

lemma upt_split_front: "[u ..< u + c + d] = [u ..< u + c] @ [u + c ..< u + c + d]"
  using upt_add_eq_append [of u "u + c" d] by simp

lemma count_list_range:
  "count_list (map ((+) d) [a ..< b]) (d + x) = (if a \<le> x \<and> x < b then 1 else 0)"
  by (induction b) auto

lemma mix_loop_blocks:
  "unat i + 4 * k = unat num_samples \<Longrightarrow>
   mix_loop num_samples dst src mul_l mul_r i s = Some (blocks k dst src mul_l mul_r i s)"
proof (induction k arbitrary: i s)
  case 0
  then have "\<not> i < num_samples" by (simp add: word_less_nat_alt)
  then show ?case by (subst mix_loop.simps) simp
next
  case (Suc k)
  have lt: "i < num_samples" using Suc.prems by (simp add: word_less_nat_alt)
  have "unat num_samples < 2 ^ 32" using unsigned_less [of num_samples] by simp
  then have "unat i + 4 < 2 ^ 32" using Suc.prems by simp
  then have "unat (i + 4) = unat i + 4" by (rule unat_plus4)
  then have "unat (i + 4) + 4 * k = unat num_samples" using Suc.prems by simp
  then have "mix_loop num_samples dst src mul_l mul_r (i + 4) (mix_block dst src mul_l mul_r i s)
      = Some (blocks k dst src mul_l mul_r (i + 4) (mix_block dst src mul_l mul_r i s))"
    by (rule Suc.IH)
  then show ?case using lt by (subst mix_loop.simps) simp
qed

lemma mix_returns:
  assumes "num_samples mod 4 = 0"
  shows "mix_mono_to_stereo_intrinsics num_samples dst src gain_l gain_r s
    = Some (Inr (blocks (unat num_samples div 4) dst src (mm_set1_ps gain_l) (mm_set1_ps gain_r) 0 s))"
proof -
  have "unat num_samples mod 4 = 0" using assms by (simp add: mod4_unat)
  then have "unat (0 :: 32 word) + 4 * (unat num_samples div 4) = unat num_samples"
    by simp presburger
  then have "mix_loop num_samples dst src (mm_set1_ps gain_l) (mm_set1_ps gain_r) 0 s
      = Some (blocks (unat num_samples div 4) dst src (mm_set1_ps gain_l) (mm_set1_ps gain_r) 0 s)"
    by (rule mix_loop_blocks)
  then show ?thesis using assms by (simp add: mix_mono_to_stereo_intrinsics_def)
qed

lemma blocks_iters: "iters (blocks k dst src mul_l mul_r i s) = iters s + k"
  by (induction k arbitrary: i s) (simp_all add: mix_block_iters)

lemma blocks_loads:
  "unat i + 4 * k < 2 ^ 32 \<Longrightarrow>
   loads (blocks k dst src mul_l mul_r i s)
     = loads s @ map ((+) src) [unat i ..< unat i + 4 * k]"
proof (induction k arbitrary: i s)
  case 0
  then show ?case by simp
next
  case (Suc k)
  have u: "unat (i + 4) = unat i + 4" using Suc.prems by (intro unat_plus4) simp
  have "loads (blocks k dst src mul_l mul_r (i + 4) (mix_block dst src mul_l mul_r i s))
      = loads (mix_block dst src mul_l mul_r i s) @ map ((+) src) [unat (i + 4) ..< unat (i + 4) + 4 * k]"
    using Suc.prems by (intro Suc.IH) (simp add: u)
  moreover have "[unat i ..< unat i + 4 * Suc k] = [unat i ..< unat i + 4] @ [unat i + 4 ..< unat i + 4 + 4 * k]"
    using upt_split_front [of "unat i" 4 "4 * k"] by (simp add: add.assoc)
  ultimately show ?case
    by (simp add: u mix_block_loads upt_four add.assoc)
qed

lemma blocks_Suc_end:
  "blocks (Suc k) dst src mul_l mul_r i s
     = mix_block dst src mul_l mul_r (i + 4 * of_nat k) (blocks k dst src mul_l mul_r i s)"
proof (induction k arbitrary: i s)
  case 0
  then show ?case by simp
next
  case (Suc k)
  have "blocks (Suc (Suc k)) dst src mul_l mul_r i s
      = blocks (Suc k) dst src mul_l mul_r (i + 4) (mix_block dst src mul_l mul_r i s)" by simp
  also have "\<dots> = mix_block dst src mul_l mul_r (i + 4 + 4 * of_nat k)
      (blocks k dst src mul_l mul_r (i + 4) (mix_block dst src mul_l mul_r i s))"
    by (rule Suc.IH)
  finally show ?case by (simp add: algebra_simps)
qed

text \<open>
  Whatever the count, the loads are those of the source slots, in order, and the stores
  stay inside the destination buffer.
\<close>

lemma blocks_frame_any:
  assumes "unat i mod 4 = 0" and "unat (num_samples :: 32 word) mod 4 = 0"
      and "unat i + 4 * k = unat num_samples"
      and "a < dst \<or> dst + 2 * unat num_samples \<le> a"
  shows "mem (blocks k dst src (mm_set1_ps gain_l) (mm_set1_ps gain_r) i s) a = mem s a"
  using assms(1,3)
proof (induction k arbitrary: i s)
  case 0
  then show ?case by simp
next
  case (Suc k)
  have "unat num_samples < 2 ^ 32" using unsigned_less [of num_samples] by simp
  then have u: "unat (i + 4) = unat i + 4" using Suc.prems by (intro unat_plus4) simp
  have "unat i < unat num_samples" using Suc.prems by simp
  then have "unat (2 * i) + 8 \<le> 2 * unat num_samples"
    using Suc.prems(1) assms(2) by (intro offset_bound)
  then have "a < dst + unat (2 * i) \<or> dst + unat (2 * i) + 8 \<le> a"
    using assms(4) by linarith
  then have "mem (mix_block dst src (mm_set1_ps gain_l) (mm_set1_ps gain_r) i s) a = mem s a"
    using Suc.prems(1) by (intro mix_block_frame)
  moreover have "mem (blocks k dst src (mm_set1_ps gain_l) (mm_set1_ps gain_r) (i + 4)
                       (mix_block dst src (mm_set1_ps gain_l) (mm_set1_ps gain_r) i s)) a
      = mem (mix_block dst src (mm_set1_ps gain_l) (mm_set1_ps gain_r) i s) a"
    using Suc.prems by (intro Suc.IH) (simp_all add: u)
  ultimately show ?case by simp
qed

lemma blocks_stores_within:
  assumes "unat i mod 4 = 0" and "unat (num_samples :: 32 word) mod 4 = 0"
      and "unat i + 4 * k = unat num_samples"
  shows "set (stores (blocks k dst src mul_l mul_r i s))
           \<subseteq> set (stores s) \<union> {dst ..< dst + 2 * unat num_samples}"
  using assms(1,3)
proof (induction k arbitrary: i s)
  case 0
  then show ?case by simp
next
  case (Suc k)
  have "unat num_samples < 2 ^ 32" using unsigned_less [of num_samples] by simp
  then have u: "unat (i + 4) = unat i + 4" using Suc.prems by (intro unat_plus4) simp
  have "unat i < unat num_samples" using Suc.prems by simp
  then have b: "unat (2 * i) + 8 \<le> 2 * unat num_samples"
    using Suc.prems(1) assms(2) by (intro offset_bound)
  have "set (stores (mix_block dst src mul_l mul_r i s))
      \<subseteq> set (stores s) \<union> {dst ..< dst + 2 * unat num_samples}"
    using b by (auto simp add: mix_block_stores offset_hi [OF Suc.prems(1)])
  moreover have "set (stores (blocks k dst src mul_l mul_r (i + 4) (mix_block dst src mul_l mul_r i s)))
      \<subseteq> set (stores (mix_block dst src mul_l mul_r i s)) \<union> {dst ..< dst + 2 * unat num_samples}"
    using Suc.prems by (intro Suc.IH) (simp_all add: u)
  ultimately show ?case by auto
qed

lemma mix_loads:
  assumes "num_samples mod 4 = 0"
  shows "\<exists>s'. mix_mono_to_stereo_intrinsics num_samples dst src gain_l gain_r s = Some (Inr s')
      \<and> loads s' = loads s @ map ((+) src) [0 ..< unat num_samples]"
proof -
  let ?k = "unat num_samples div 4"
  have m: "unat num_samples mod 4 = 0" using assms by (simp add: mod4_unat)
  then have k: "4 * ?k = unat num_samples" by presburger
  have "unat num_samples < 2 ^ 32" using unsigned_less [of num_samples] by simp
  then have "unat (0 :: 32 word) + 4 * ?k < 2 ^ 32" using k by simp
  then have "loads (blocks ?k dst src (mm_set1_ps gain_l) (mm_set1_ps gain_r) 0 s)
      = loads s @ map ((+) src) [unat (0 :: 32 word) ..< unat (0 :: 32 word) + 4 * ?k]"
    by (rule blocks_loads)
  then show ?thesis
    unfolding mix_returns [OF assms] using k by simp
qed

lemma mix_stores_within:
  assumes "num_samples mod 4 = 0"
  shows "\<exists>s'. mix_mono_to_stereo_intrinsics num_samples dst src gain_l gain_r s = Some (Inr s')
      \<and> set (stores s') \<subseteq> set (stores s) \<union> {dst ..< dst + 2 * unat num_samples}
      \<and> (\<forall>a. a < dst \<or> dst + 2 * unat num_samples \<le> a \<longrightarrow> mem s' a = mem s a)"
proof -
  let ?k = "unat num_samples div 4"
  have m: "unat num_samples mod 4 = 0" using assms by (simp add: mod4_unat)
  then have k: "unat (0 :: 32 word) + 4 * ?k = unat num_samples" by simp presburger
  have z: "unat (0 :: 32 word) mod 4 = 0" by simp
  show ?thesis
    unfolding mix_returns [OF assms]
    using blocks_stores_within [OF z m k, of dst src _ _ s]
      blocks_frame_any [OF z m k, of _ dst src gain_l gain_r s]
    by simp
qed

text \<open>
  Up to \<open>2 ^ 31\<close> samples the offset \<open>2 * i\<close> does not wrap: every destination slot is
  written once, in order, with the product of its source sample and its gain.
\<close>

lemma blocks_stores:
  "unat i mod 4 = 0 \<Longrightarrow> unat i + 4 * k \<le> 2 ^ 31 \<Longrightarrow>
   stores (blocks k dst src mul_l mul_r i s)
     = stores s @ map ((+) dst) [2 * unat i ..< 2 * unat i + 8 * k]"
proof (induction k arbitrary: i s)
  case 0
  then show ?case by simp
next
  case (Suc k)
  have u: "unat (i + 4) = unat i + 4" using Suc.prems by (intro unat_plus4) simp
  have lo: "unat (2 * i) = 2 * unat i" using Suc.prems by (intro unat_twice_small) simp
  have hi: "unat (2 * i + 4) = 2 * unat i + 4" using offset_hi [OF Suc.prems(1)] lo by simp
  have "stores (blocks k dst src mul_l mul_r (i + 4) (mix_block dst src mul_l mul_r i s))
      = stores (mix_block dst src mul_l mul_r i s)
          @ map ((+) dst) [2 * unat (i + 4) ..< 2 * unat (i + 4) + 8 * k]"
    using Suc.prems by (intro Suc.IH) (simp_all add: u)
  moreover have "[2 * unat i ..< 2 * unat i + 8 * Suc k]
      = [2 * unat i ..< 2 * unat i + 8] @ [2 * unat i + 8 ..< 2 * unat i + 8 + 8 * k]"
    using upt_split_front [of "2 * unat i" 8 "8 * k"] by (simp add: add.assoc)
  ultimately show ?case
    by (simp add: u lo hi mix_block_stores upt_eight add.assoc)
qed

lemma blocks_frame:
  assumes "unat i mod 4 = 0" and "unat i + 4 * k \<le> 2 ^ 31"
      and "a < dst + 2 * unat i \<or> dst + 2 * unat i + 8 * k \<le> a"
  shows "mem (blocks k dst src (mm_set1_ps gain_l) (mm_set1_ps gain_r) i s) a = mem s a"
  using assms
proof (induction k arbitrary: i s)
  case 0
  then show ?case by simp
next
  case (Suc k)
  have u: "unat (i + 4) = unat i + 4" using Suc.prems by (intro unat_plus4) simp
  have lo: "unat (2 * i) = 2 * unat i" using Suc.prems by (intro unat_twice_small) simp
  have "a < dst + unat (2 * i) \<or> dst + unat (2 * i) + 8 \<le> a"
    using Suc.prems(3) lo by auto
  then have "mem (mix_block dst src (mm_set1_ps gain_l) (mm_set1_ps gain_r) i s) a = mem s a"
    using Suc.prems(1) by (intro mix_block_frame)
  moreover have "mem (blocks k dst src (mm_set1_ps gain_l) (mm_set1_ps gain_r) (i + 4)
                       (mix_block dst src (mm_set1_ps gain_l) (mm_set1_ps gain_r) i s)) a
      = mem (mix_block dst src (mm_set1_ps gain_l) (mm_set1_ps gain_r) i s) a"
    using Suc.prems by (intro Suc.IH) (auto simp add: u)
  ultimately show ?case by simp
qed

lemma blocks_value:
  assumes "unat i mod 4 = 0" and "unat i + 4 * k \<le> 2 ^ 31"
      and "src + (unat i + 4 * k) \<le> dst \<or> dst + 2 * (unat i + 4 * k) \<le> src"
      and "2 * unat i \<le> j" and "j < 2 * unat i + 8 * k"
  shows "mem (blocks k dst src (mm_set1_ps gain_l) (mm_set1_ps gain_r) i s) (dst + j)
           = fmul (mem s (src + j div 2)) (if even j then gain_l else gain_r)"
  using assms
proof (induction k arbitrary: i s)
  case 0
  then show ?case by simp
next
  case (Suc k)
  let ?s1 = "mix_block dst src (mm_set1_ps gain_l) (mm_set1_ps gain_r) i s"
  have u: "unat (i + 4) = unat i + 4" using Suc.prems by (intro unat_plus4) simp
  have lo: "unat (2 * i) = 2 * unat i" using Suc.prems by (intro unat_twice_small) simp
  have m4: "unat (i + 4) mod 4 = 0" using Suc.prems(1) by (simp add: u)
  show ?case
  proof (cases "j < 2 * unat i + 8")
    case True
    define r where "r = j - 2 * unat i"
    have r: "j = 2 * unat i + r" "r < 8" using True Suc.prems(4) by (simp_all add: r_def)
    have "mem (blocks k dst src (mm_set1_ps gain_l) (mm_set1_ps gain_r) (i + 4) ?s1) (dst + j)
        = mem ?s1 (dst + j)"
      using Suc.prems(2) True by (intro blocks_frame m4) (simp_all add: u)
    also have "\<dots> = mem ?s1 (dst + unat (2 * i) + r)" by (simp add: lo r add.assoc)
    also have "\<dots> = fmul (mem s (src + unat i + r div 2)) (if even r then gain_l else gain_r)"
      using Suc.prems(1) r(2) by (rule mix_block_value)
    also have "\<dots> = fmul (mem s (src + j div 2)) (if even j then gain_l else gain_r)"
      by (simp add: r add.assoc)
    finally show ?thesis by simp
  next
    case False
    have "mem (blocks k dst src (mm_set1_ps gain_l) (mm_set1_ps gain_r) (i + 4) ?s1) (dst + j)
        = fmul (mem ?s1 (src + j div 2)) (if even j then gain_l else gain_r)"
    proof (intro Suc.IH m4)
      show "unat (i + 4) + 4 * k \<le> 2 ^ 31" using Suc.prems(2) by (simp add: u)
      show "src + (unat (i + 4) + 4 * k) \<le> dst \<or> dst + 2 * (unat (i + 4) + 4 * k) \<le> src"
        using Suc.prems(3) unfolding u by auto
      show "2 * unat (i + 4) \<le> j" using False by (simp add: u)
      show "j < 2 * unat (i + 4) + 8 * k" using Suc.prems(5) by (simp add: u)
    qed
    moreover have "mem ?s1 (src + j div 2) = mem s (src + j div 2)"
    proof (rule mix_block_frame [OF Suc.prems(1)])
      have "unat i + 4 \<le> j div 2" "j div 2 < unat i + 4 * Suc k"
        using False Suc.prems(5) by simp_all
      then show "src + j div 2 < dst + unat (2 * i) \<or> dst + unat (2 * i) + 8 \<le> src + j div 2"
        using Suc.prems(3) lo by auto
    qed
    ultimately show ?thesis by simp
  qed
qed

lemma blocks_sample:
  assumes "unat num_samples mod 4 = 0" and "unat num_samples \<le> 2 ^ 31"
      and "src + unat num_samples \<le> dst \<or> dst + 2 * unat num_samples \<le> src"
      and "i < unat num_samples"
  shows "mem (blocks (unat num_samples div 4) dst src (mm_set1_ps gain_l) (mm_set1_ps gain_r) 0 s)
           (dst + 2 * i) = fmul (mem s (src + i)) gain_l"
    and "mem (blocks (unat num_samples div 4) dst src (mm_set1_ps gain_l) (mm_set1_ps gain_r) 0 s)
           (dst + 2 * i + 1) = fmul (mem s (src + i)) gain_r"
proof -
  let ?k = "unat num_samples div 4"
  have z: "unat (0 :: 32 word) mod 4 = 0" by simp
  have k: "unat (0 :: 32 word) + 4 * ?k = unat num_samples" using assms(1) by simp presburger
  have b: "unat (0 :: 32 word) + 4 * ?k \<le> 2 ^ 31" using assms(2) unfolding k .
  have d: "src + (unat (0 :: 32 word) + 4 * ?k) \<le> dst \<or> dst + 2 * (unat (0 :: 32 word) + 4 * ?k) \<le> src"
    using assms(3) unfolding k .
  have v: "mem (blocks ?k dst src (mm_set1_ps gain_l) (mm_set1_ps gain_r) 0 s) (dst + j)
      = fmul (mem s (src + j div 2)) (if even j then gain_l else gain_r)"
    if "j < 2 * unat num_samples" for j
  proof (rule blocks_value [OF z b d])
    show "2 * unat (0 :: 32 word) \<le> j" by simp
    have "8 * ?k = 2 * unat num_samples" using assms(1) by presburger
    then show "j < 2 * unat (0 :: 32 word) + 8 * ?k" using that by simp
  qed
  show "mem (blocks ?k dst src (mm_set1_ps gain_l) (mm_set1_ps gain_r) 0 s) (dst + 2 * i)
      = fmul (mem s (src + i)) gain_l"
    using v [of "2 * i"] assms(4) by simp
  show "mem (blocks ?k dst src (mm_set1_ps gain_l) (mm_set1_ps gain_r) 0 s) (dst + 2 * i + 1)
      = fmul (mem s (src + i)) gain_r"
    using v [of "2 * i + 1"] assms(4) by (simp add: add.assoc)
qed

lemma mix_elementwise:
  assumes "num_samples mod 4 = 0" and "unat num_samples \<le> 2 ^ 31"
      and "src + unat num_samples \<le> dst \<or> dst + 2 * unat num_samples \<le> src"
  shows "\<exists>s'. mix_mono_to_stereo_intrinsics num_samples dst src gain_l gain_r s = Some (Inr s')
      \<and> (\<forall>i < unat num_samples.
            mem s' (dst + 2 * i) = fmul (mem s (src + i)) gain_l
          \<and> mem s' (dst + 2 * i + 1) = fmul (mem s (src + i)) gain_r)"
proof -
  have m: "unat num_samples mod 4 = 0" using assms(1) by (simp add: mod4_unat)
  show ?thesis
    unfolding mix_returns [OF assms(1)]
    using blocks_sample [OF m assms(2,3)] by simp
qed

lemma mix_footprint:
  assumes "num_samples mod 4 = 0" and "unat num_samples \<le> 2 ^ 31"
  shows "\<exists>s'. mix_mono_to_stereo_intrinsics num_samples dst src gain_l gain_r s = Some (Inr s')
      \<and> loads s' = loads s @ map ((+) src) [0 ..< unat num_samples]
      \<and> stores s' = stores s @ map ((+) dst) [0 ..< 2 * unat num_samples]"
proof -
  let ?k = "unat num_samples div 4"
  have m: "unat num_samples mod 4 = 0" using assms(1) by (simp add: mod4_unat)
  then have k: "4 * ?k = unat num_samples" "8 * ?k = 2 * unat num_samples" by presburger+
  have z: "unat (0 :: 32 word) mod 4 = 0" by simp
  have "unat (0 :: 32 word) + 4 * ?k < 2 ^ 32" using assms(2) k(1) by simp
  then have "loads (blocks ?k dst src (mm_set1_ps gain_l) (mm_set1_ps gain_r) 0 s)
      = loads s @ map ((+) src) [unat (0 :: 32 word) ..< unat (0 :: 32 word) + 4 * ?k]"
    by (rule blocks_loads)
  moreover have "unat (0 :: 32 word) + 4 * ?k \<le> 2 ^ 31" using assms(2) k(1) by simp
  with z have "stores (blocks ?k dst src (mm_set1_ps gain_l) (mm_set1_ps gain_r) 0 s)
      = stores s @ map ((+) dst) [2 * unat (0 :: 32 word) ..< 2 * unat (0 :: 32 word) + 8 * ?k]"
    by (rule blocks_stores)
  ultimately show ?thesis
    unfolding mix_returns [OF assms(1)] using k by simp
qed

text \<open>The smallest block, \<open>num_samples = 4\<close>, is one pass.\<close>

lemma mix_four:
  "mix_mono_to_stereo_intrinsics 4 dst src gain_l gain_r s
     = Some (Inr (mix_block dst src (mm_set1_ps gain_l) (mm_set1_ps gain_r) 0 s))"
proof -
  have "(4 :: 32 word) mod 4 = 0" by simp
  then have "mix_mono_to_stereo_intrinsics 4 dst src gain_l gain_r s
     = Some (Inr (blocks (unat (4 :: 32 word) div 4) dst src
                    (mm_set1_ps gain_l) (mm_set1_ps gain_r) 0 s))"
    by (rule mix_returns)
  moreover have "unat (4 :: 32 word) div 4 = Suc 0" by simp
  ultimately show ?thesis by simp
qed

lemma mix_four_mem:
  "mem (mix_block dst src (mm_set1_ps gain_l) (mm_set1_ps gain_r) 0 s)
     = (mem s)
       (dst := fmul (mem s src) gain_l,
        dst + 1 := fmul (mem s src) gain_r,
        dst + 2 := fmul (mem s (src + 1)) gain_l,
        dst + 3 := fmul (mem s (src + 1)) gain_r,
        dst + 4 := fmul (mem s (src + 2)) gain_l,
        dst + 5 := fmul (mem s (src + 2)) gain_r,
        dst + 6 := fmul (mem s (src + 3)) gain_l,
        dst + 7 := fmul (mem s (src + 3)) gain_r)"
  by (rule ext) (simp add: mix_block_mem add.assoc)

text \<open>
  The count \<open>0x80000004\<close> is \<open>2 ^ 31 + 4\<close>: its last pass runs at index \<open>2 ^ 31\<close>, where
  \<open>2 * i\<close> is 0 in 32 bits, so the pass stores over the first eight destination slots.
\<close>

lemma wrap_run:
  "mix_mono_to_stereo_intrinsics 0x80000004 dst src gain_l gain_r s
     = Some (Inr (mix_block dst src (mm_set1_ps gain_l) (mm_set1_ps gain_r) 0x80000000
                   (blocks 536870912 dst src (mm_set1_ps gain_l) (mm_set1_ps gain_r) 0 s)))"
proof -
  have "(0x80000004 :: 32 word) mod 4 = 0" by simp
  then have "mix_mono_to_stereo_intrinsics 0x80000004 dst src gain_l gain_r s
     = Some (Inr (blocks (unat (0x80000004 :: 32 word) div 4) dst src
                    (mm_set1_ps gain_l) (mm_set1_ps gain_r) 0 s))"
    by (rule mix_returns)
  moreover have "unat (0x80000004 :: 32 word) div 4 = Suc 536870912" by simp
  moreover have "(0 :: 32 word) + 4 * of_nat 536870912 = 0x80000000" by simp
  ultimately show ?thesis by (simp only: blocks_Suc_end)
qed

lemma wrap_value:
  assumes "src + 2147483652 \<le> dst \<or> dst + 4294967304 \<le> src" and "j < 8"
  shows "mem (mix_block dst src (mm_set1_ps gain_l) (mm_set1_ps gain_r) 0x80000000
                   (blocks 536870912 dst src (mm_set1_ps gain_l) (mm_set1_ps gain_r) 0 s)) (dst + j)
           = fmul (mem s (src + 2147483648 + j div 2)) (if even j then gain_l else gain_r)"
proof -
  let ?s1 = "blocks 536870912 dst src (mm_set1_ps gain_l) (mm_set1_ps gain_r) 0 s"
  have m: "unat (0x80000000 :: 32 word) mod 4 = 0" by simp
  have z: "unat (0 :: 32 word) mod 4 = 0" by simp
  have "mem (mix_block dst src (mm_set1_ps gain_l) (mm_set1_ps gain_r) 0x80000000 ?s1)
          (dst + unat (2 * 0x80000000 :: 32 word) + j)
      = fmul (mem ?s1 (src + unat (0x80000000 :: 32 word) + j div 2))
          (if even j then gain_l else gain_r)"
    using m assms(2) by (rule mix_block_value)
  moreover have "mem ?s1 (src + 2147483648 + j div 2) = mem s (src + 2147483648 + j div 2)"
  proof (rule blocks_frame [OF z])
    show "unat (0 :: 32 word) + 4 * 536870912 \<le> 2 ^ 31" by simp
    show "src + 2147483648 + j div 2 < dst + 2 * unat (0 :: 32 word)
        \<or> dst + 2 * unat (0 :: 32 word) + 8 * 536870912 \<le> src + 2147483648 + j div 2"
      using assms by auto
  qed
  ultimately show ?thesis by simp
qed

lemma wrap_stores_count:
  "count_list (stores (mix_block dst src (mm_set1_ps gain_l) (mm_set1_ps gain_r) 0x80000000
                   (blocks 536870912 dst src (mm_set1_ps gain_l) (mm_set1_ps gain_r) 0 s))) dst
     = count_list (stores s) dst + 2"
proof -
  let ?s1 = "blocks 536870912 dst src (mm_set1_ps gain_l) (mm_set1_ps gain_r) 0 s"
  have z: "unat (0 :: 32 word) mod 4 = 0" by simp
  have "unat (0 :: 32 word) + 4 * 536870912 \<le> 2 ^ 31" by simp
  with z have "stores ?s1 = stores s
      @ map ((+) dst) [2 * unat (0 :: 32 word) ..< 2 * unat (0 :: 32 word) + 8 * 536870912]"
    by (rule blocks_stores)
  then have "count_list (stores ?s1) dst = count_list (stores s) dst
      + count_list (map ((+) dst) [2 * unat (0 :: 32 word) ..< 2 * unat (0 :: 32 word) + 8 * 536870912]) (dst + 0)"
    by simp
  also have "\<dots> = count_list (stores s) dst + 1"
    by (simp only: count_list_range) simp
  finally have c1: "count_list (stores ?s1) dst = count_list (stores s) dst + 1" .
  have u: "unat (2 * 0x80000000 :: 32 word) = 0" "unat (2 * 0x80000000 + 4 :: 32 word) = 4" by simp_all
  show ?thesis
    by (simp add: mix_block_stores u c1)
qed

lemma wrap_stores_set:
  "set (stores (mix_block dst src mul_l mul_r 0x80000000 (blocks 536870912 dst src mul_l mul_r 0 s)))
     = set (stores s) \<union> {dst ..< dst + 4294967296}"
proof -
  let ?s1 = "blocks 536870912 dst src mul_l mul_r 0 s"
  have z: "unat (0 :: 32 word) mod 4 = 0" by simp
  have "unat (0 :: 32 word) + 4 * 536870912 \<le> 2 ^ 31" by simp
  with z have "stores ?s1 = stores s
      @ map ((+) dst) [2 * unat (0 :: 32 word) ..< 2 * unat (0 :: 32 word) + 8 * 536870912]"
    by (rule blocks_stores)
  then have "set (stores ?s1) = set (stores s) \<union> (+) dst ` {0 ..< 4294967296}"
    by (simp only: set_append set_map set_upt) simp
  also have "(+) dst ` {0 ..< 4294967296} = {dst ..< dst + 4294967296}"
    by (simp add: image_add_atLeastLessThan add.commute)
  finally have s1: "set (stores ?s1) = set (stores s) \<union> {dst ..< dst + 4294967296}" .
  have u: "unat (2 * 0x80000000 :: 32 word) = 0" "unat (2 * 0x80000000 + 4 :: 32 word) = 4" by simp_all
  show ?thesis by (auto simp add: mix_block_stores u s1)
qed

section \<open>Rounding\<close>

text \<open>
  Facts about the multiplication: evaluation on numerals, the products with 1.0 and
  with 0.0, and the error of one rounding.
\<close>

lemma bitlen_0: "bitlen 0 = 0"
  by (simp add: bitlen.simps)

lemma bitlen_pos: "0 < n \<Longrightarrow> bitlen n = Suc (bitlen (n div 2))"
  by (subst bitlen.simps) simp

lemmas float_evals = round32_def rne_shift_def dyadic_def significand_def exponent_def
  bitlen_0 bitlen_pos Let_def

lemma dyadic_values:
  "dyadic 1 0 = Fin False 127 0" "dyadic 2 0 = Fin False 128 0" "dyadic 3 0 = Fin False 128 4194304"
  "dyadic 4 0 = Fin False 129 0" "dyadic 6 0 = Fin False 129 4194304" "dyadic 8 0 = Fin False 130 0"
  "dyadic 1 (- 1) = Fin False 126 0" "dyadic 3 (- 1) = Fin False 127 4194304"
  by (simp_all add: float_evals)

lemma bitlen_le_iff: "bitlen m \<le> k \<longleftrightarrow> m < 2 ^ k"
proof (induction k arbitrary: m)
  case 0
  show ?case by (cases "m = 0") (simp_all add: bitlen_0 bitlen_pos)
next
  case (Suc k)
  show ?case
  proof (cases "m = 0")
    case True
    then show ?thesis by (simp add: bitlen_0)
  next
    case False
    then have "bitlen m \<le> Suc k \<longleftrightarrow> bitlen (m div 2) \<le> k" by (simp add: bitlen_pos)
    also have "\<dots> \<longleftrightarrow> m div 2 < 2 ^ k" by (rule Suc.IH)
    also have "\<dots> \<longleftrightarrow> m < 2 ^ Suc k" by auto
    finally show ?thesis .
  qed
qed

lemma bitlen_eq: "2 ^ k \<le> m \<Longrightarrow> m < 2 ^ Suc k \<Longrightarrow> bitlen m = Suc k"
proof -
  assume a: "2 ^ k \<le> m" "m < 2 ^ Suc k"
  have "bitlen m \<le> Suc k" using a(2) by (simp only: bitlen_le_iff)
  moreover have "\<not> bitlen m \<le> k" using a(1) by (simp add: bitlen_le_iff)
  ultimately show ?thesis by simp
qed

lemma bitlen_shift: "0 < m \<Longrightarrow> bitlen (m * 2 ^ k) = bitlen m + k"
proof (induction k)
  case 0
  then show ?case by simp
next
  case (Suc k)
  have "bitlen (m * 2 ^ Suc k) = Suc (bitlen (m * 2 ^ Suc k div 2))"
    using Suc.prems by (intro bitlen_pos) simp
  also have "m * 2 ^ Suc k div 2 = m * 2 ^ k" by simp
  finally show ?case using Suc by simp
qed

lemma rne_shift_exact: "rne_shift (m * 2 ^ k) k = m"
  by (cases "k = 0") (simp_all add: rne_shift_def)

text \<open>
  A value that fits the format is not changed by rounding: \<open>m\<close> has at most 24 bits and
  \<open>X\<close> is the exponent the format gives to its last bit.
\<close>

lemma round32_scaled:
  assumes "0 < m" and "m < 2 ^ 24" and "0 < k"
      and "max (int (bitlen m) + X - 24) (- 149) = X"
  shows "round32 s (m * 2 ^ k) (X - int k)
           = (if 104 < X then Inf s
              else if m < 2 ^ 23 then Fin s 0 m
              else Fin s (nat (X + 150)) (m - 2 ^ 23))"
proof -
  have "bitlen (m * 2 ^ k) = bitlen m + k" using assms(1) by (rule bitlen_shift)
  then have E: "max (int (bitlen (m * 2 ^ k)) + (X - int k) - 24) (- 149) = X"
    using assms(4) by simp
  have k: "\<not> X \<le> X - int k" "nat (X - (X - int k)) = k" using assms(3) by simp_all
  have nz: "m * 2 ^ k \<noteq> 0" using assms(1) by simp
  show ?thesis
    unfolding round32_def Let_def E
    using assms(2) by (simp only: k nz rne_shift_exact if_False) simp
qed

text \<open>Multiplying by 1.0 gives the datum back.\<close>

lemma fmul_one:
  assumes "valid x"
  shows "fmul x (Fin False 127 0) = x"
proof (cases x)
  case NaN
  then show ?thesis by simp
next
  case (Inf s)
  then show ?thesis by (simp add: significand_def)
next
  case (Fin s e f)
  with assms have v: "e < 255" "f < 2 ^ 23" by simp_all
  have one: "significand 127 0 = 2 ^ 23" "exponent 127 = - int 23"
    by (simp_all add: significand_def exponent_def)
  have prod: "fmul (Fin s e f) (Fin False 127 0)
      = round32 s (significand e f * 2 ^ 23) (exponent e - int 23)"
    by (simp add: one)
  show ?thesis
  proof (cases "significand e f = 0")
    case True
    then have "e = 0" "f = 0" by (simp_all add: significand_def split: if_splits)
    then show ?thesis by (simp add: Fin round32_def significand_def)
  next
    case False
    have small: "significand e f < 2 ^ 24" using v(2) by (simp add: significand_def)
    have E: "max (int (bitlen (significand e f)) + exponent e - 24) (- 149) = exponent e"
    proof (cases "e = 0")
      case True
      have "bitlen f \<le> 23" using v(2) by (simp only: bitlen_le_iff)
      then show ?thesis using True by (simp add: significand_def exponent_def)
    next
      case False
      have "bitlen (2 ^ 23 + f) = Suc 23" using v(2) by (intro bitlen_eq) simp_all
      then show ?thesis using False by (simp add: significand_def exponent_def)
    qed
    have "round32 s (significand e f * 2 ^ 23) (exponent e - int 23)
        = (if 104 < exponent e then Inf s
           else if significand e f < 2 ^ 23 then Fin s 0 (significand e f)
           else Fin s (nat (exponent e + 150)) (significand e f - 2 ^ 23))"
      using False small E by (intro round32_scaled) simp_all
    also have "\<dots> = Fin s e f"
      using v by (simp add: significand_def exponent_def)
    finally show ?thesis unfolding Fin prod .
  qed
qed

lemma mix_identity_gain:
  assumes "num_samples mod 4 = 0" and "unat num_samples \<le> 2 ^ 31"
      and "src + unat num_samples \<le> dst \<or> dst + 2 * unat num_samples \<le> src"
      and "\<forall>i < unat num_samples. valid (mem s (src + i))"
  shows "\<exists>s'. mix_mono_to_stereo_intrinsics num_samples dst src (Fin False 127 0) (Fin False 127 0) s
          = Some (Inr s')
      \<and> (\<forall>i < unat num_samples.
            mem s' (dst + 2 * i) = mem s (src + i) \<and> mem s' (dst + 2 * i + 1) = mem s (src + i))"
  using mix_elementwise [OF assms(1-3), of "Fin False 127 0" "Fin False 127 0" s] assms(4)
  by (auto simp add: fmul_one)

text \<open>Multiplying a finite datum by 0.0 gives a zero of its sign; anything else gives NaN.\<close>

lemma fmul_zero_finite: "is_finite x \<Longrightarrow> is_zero (fmul x (Fin False 0 0))"
  by (cases x) (simp_all add: significand_def round32_def)

lemma fmul_zero_sign: "fmul (Fin s e f) (Fin False 0 0) = Fin s 0 0"
  by (simp add: significand_def round32_def)

lemma fmul_zero_not_finite: "\<not> is_finite x \<Longrightarrow> fmul x (Fin False 0 0) = NaN"
  by (cases x) (simp_all add: significand_def)

text \<open>
  A product that rounds to a normal number is off by at most the fraction
  \<open>1 / (2 ^ 24 - 1)\<close> of its exact value.
\<close>

lemma rne_shift_bounds:
  assumes "0 < k"
  shows "2 * m \<le> 2 * (rne_shift m k * 2 ^ k) + 2 ^ k"
    and "2 * (rne_shift m k * 2 ^ k) \<le> 2 * m + 2 ^ k"
proof -
  define d where "d = m div 2 ^ k"
  define r where "r = m mod 2 ^ k"
  define h :: nat where "h = 2 ^ (k - 1)"
  have p: "(2::nat) ^ k = 2 * h" using assms by (simp add: h_def flip: power_Suc)
  have m: "m = d * (2 * h) + r"
    using div_mult_mod_eq [of m "2 ^ k"] by (simp add: d_def r_def p)
  have "r < 2 ^ k" by (simp add: r_def)
  then have r: "r < 2 * h" by (simp only: p)
  have q: "rne_shift m k = (if h < r \<or> (r = h \<and> odd d) then d + 1 else d)"
    using assms by (simp add: rne_shift_def d_def r_def h_def Let_def)
  show "2 * m \<le> 2 * (rne_shift m k * 2 ^ k) + 2 ^ k"
    unfolding p q using r m by (auto simp add: algebra_simps)
  show "2 * (rne_shift m k * 2 ^ k) \<le> 2 * m + 2 ^ k"
    unfolding p q using r m by (auto simp add: algebra_simps)
qed

lemma rne_shift_real:
  assumes "0 < k"
  shows "\<bar>real (rne_shift m k) * 2 ^ k - real m\<bar> \<le> 2 ^ k / 2"
proof -
  have "real (2 * m) \<le> real (2 * (rne_shift m k * 2 ^ k) + 2 ^ k)"
    using rne_shift_bounds(1) [OF assms, of m] by (rule iffD2 [OF of_nat_le_iff])
  then have a: "2 * real m \<le> 2 * (real (rne_shift m k) * 2 ^ k) + 2 ^ k" by simp
  have "real (2 * (rne_shift m k * 2 ^ k)) \<le> real (2 * m + 2 ^ k)"
    using rne_shift_bounds(2) [OF assms, of m] by (rule iffD2 [OF of_nat_le_iff])
  then have b: "2 * (real (rne_shift m k) * 2 ^ k) \<le> 2 * real m + 2 ^ k" by simp
  show ?thesis using a b by linarith
qed

lemma powr_int_shift:
  "x < E \<Longrightarrow> 2 powr real_of_int E = 2 powr real_of_int x * 2 ^ nat (E - x)"
proof -
  assume "x < E"
  then have "real_of_int E = real_of_int x + real (nat (E - x))" by simp
  then have "2 powr real_of_int E = 2 powr real_of_int x * 2 powr real (nat (E - x))"
    by (simp only: powr_add)
  then show ?thesis by (simp add: powr_realpow)
qed

lemma round32_error:
  assumes "is_normal (round32 s m x)"
  shows "\<bar>valof (round32 s m x) - sgn_of s * (real m * 2 powr real_of_int x)\<bar> * (2 ^ 24 - 1)
           \<le> real m * 2 powr real_of_int x"
proof -
  define E where "E = max (int (bitlen m) + x - 24) (- 149)"
  define q where "q = (if E \<le> x then m * 2 ^ nat (x - E) else rne_shift m (nat (E - x)))"
  define E' where "E' = (if q = 2 ^ 24 then E + 1 else E)"
  define q' :: nat where "q' = (if q = 2 ^ 24 then 2 ^ 23 else q)"
  define u where "u = 2 powr real_of_int x"
  have u: "0 < u" by (simp add: u_def)
  have m: "m \<noteq> 0"
  proof
    assume "m = 0"
    then have "round32 s m x = Fin s 0 0" by (simp add: round32_def)
    with assms show False by simp
  qed
  then have r: "round32 s m x =
      (if 104 < E' then Inf s
       else if q' < 2 ^ 23 then Fin s 0 q'
       else Fin s (nat (E' + 150)) (q' - 2 ^ 23))"
    unfolding round32_def Let_def E_def q_def E'_def q'_def by (simp only: if_False)
  have n: "\<not> 104 < E'" "\<not> q' < 2 ^ 23" "1 \<le> nat (E' + 150)"
    using assms unfolding r by (auto split: if_splits)
  have "valof (round32 s m x) = sgn_of s * (real q' * 2 powr real_of_int E')"
    using n unfolding r by (simp add: significand_def exponent_def sgn_of_def)
  also have "real q' * 2 powr real_of_int E' = real q * 2 powr real_of_int E"
    by (simp add: q'_def E'_def powr_add)
  finally have v: "valof (round32 s m x) = sgn_of s * (real q * 2 powr real_of_int E)" .
  have q: "2 ^ 23 \<le> q" using n(2) by (auto simp add: q'_def split: if_splits)
  have s: "\<bar>sgn_of s * a - sgn_of s * b\<bar> = \<bar>a - b\<bar>" for a b
    by (simp add: sgn_of_def abs_minus_commute)
  show ?thesis
  proof (cases "E \<le> x")
    case True
    then have "real_of_int x = real_of_int E + real (nat (x - E))" by simp
    then have "2 powr real_of_int x = 2 powr real_of_int E * 2 powr real (nat (x - E))"
      by (simp only: powr_add)
    then have "2 powr real_of_int x = 2 powr real_of_int E * 2 ^ nat (x - E)"
      by (simp add: powr_realpow)
    moreover have "real q = real m * 2 ^ nat (x - E)" using True by (simp add: q_def)
    ultimately have "real q * 2 powr real_of_int E = real m * 2 powr real_of_int x" by simp
    then show ?thesis by (simp add: v)
  next
    case False
    define k where "k = nat (E - x)"
    have k: "0 < k" using False by (simp add: k_def)
    have qk: "q = rne_shift m k" using False by (simp add: q_def k_def)
    have p: "2 powr real_of_int E = u * 2 ^ k"
      using False unfolding u_def k_def by (intro powr_int_shift) simp
    have e: "\<bar>real q * 2 ^ k - real m\<bar> \<le> 2 ^ k / 2"
      unfolding qk using k by (rule rne_shift_real)
    have "(2 ^ 23 - 1 / 2) * 2 ^ k \<le> (real q - 1 / 2) * (2 ^ k :: real)"
    proof (rule mult_right_mono)
      have "real (2 ^ 23) \<le> real q" using q by (rule iffD2 [OF of_nat_le_iff])
      then show "2 ^ 23 - 1 / 2 \<le> real q - 1 / 2" by simp
      show "(0 :: real) \<le> 2 ^ k" by simp
    qed
    also have "\<dots> = real q * 2 ^ k - 2 ^ k / 2" by (simp add: algebra_simps)
    also have "\<dots> \<le> real m" using e by linarith
    finally have lower: "(2 ^ 23 - 1 / 2) * 2 ^ k \<le> real m" .
    have "\<bar>valof (round32 s m x) - sgn_of s * (real m * u)\<bar> = \<bar>real q * (u * 2 ^ k) - real m * u\<bar>"
      unfolding v p by (rule s)
    also have "real q * (u * 2 ^ k) - real m * u = (real q * 2 ^ k - real m) * u"
      by (simp add: algebra_simps)
    also have "\<bar>(real q * 2 ^ k - real m) * u\<bar> = \<bar>real q * 2 ^ k - real m\<bar> * u"
      using u by (simp only: abs_mult abs_of_pos)
    finally have "\<bar>valof (round32 s m x) - sgn_of s * (real m * u)\<bar> * (2 ^ 24 - 1)
        = \<bar>real q * 2 ^ k - real m\<bar> * (2 ^ 24 - 1) * u" by simp
    also have "\<dots> \<le> (2 ^ k / 2) * (2 ^ 24 - 1) * u"
      using e u by (intro mult_right_mono) simp_all
    also have "\<dots> = (2 ^ 23 - 1 / 2) * 2 ^ k * u" by simp
    also have "\<dots> \<le> real m * u"
      using lower u by (intro mult_right_mono) simp_all
    finally show ?thesis by (simp only: u_def)
  qed
qed

lemma valof_Fin: "valof (Fin s e f) = sgn_of s * (real (significand e f) * 2 powr real_of_int (exponent e))"
  by (simp add: sgn_of_def)

lemma sgn_of_mult: "sgn_of s * sgn_of t = sgn_of (s \<noteq> t)"
  by (simp add: sgn_of_def)

lemma abs_sgn_of: "\<bar>sgn_of s * a\<bar> = \<bar>a\<bar>"
  by (simp add: sgn_of_def)

lemma fmul_error:
  assumes "in_range a b"
  shows "\<bar>valof (fmul a b) - valof a * valof b\<bar> * (2 ^ 24 - 1) \<le> \<bar>valof a * valof b\<bar>"
    and "is_finite (fmul a b)"
proof -
  from assms obtain s e f t e' f' where a: "a = Fin s e f" and b: "b = Fin t e' f'"
    by (cases a; cases b) (simp_all add: in_range_def)
  define m where "m = significand e f * significand e' f'"
  define x where "x = exponent e + exponent e'"
  have prod: "fmul a b = round32 (s \<noteq> t) m x" by (simp add: a b m_def x_def)
  have "valof a * valof b
      = (sgn_of s * sgn_of t) * (real (significand e f * significand e' f')
          * (2 powr real_of_int (exponent e) * 2 powr real_of_int (exponent e')))"
    unfolding a b valof_Fin by simp
  also have "2 powr real_of_int (exponent e) * 2 powr real_of_int (exponent e') = 2 powr real_of_int x"
    by (simp add: x_def powr_add)
  finally have exact: "valof a * valof b = sgn_of (s \<noteq> t) * (real m * 2 powr real_of_int x)"
    by (simp only: sgn_of_mult m_def)
  have abs_exact: "\<bar>valof a * valof b\<bar> = real m * 2 powr real_of_int x"
    unfolding exact abs_sgn_of by simp
  show "\<bar>valof (fmul a b) - valof a * valof b\<bar> * (2 ^ 24 - 1) \<le> \<bar>valof a * valof b\<bar>"
  proof (cases "m = 0")
    case True
    then have "fmul a b = Fin (s \<noteq> t) 0 0" by (simp add: prod round32_def)
    then show ?thesis using True by (simp add: exact significand_def)
  next
    case False
    then have "\<not> is_zero a" "\<not> is_zero b" by (auto simp add: a b m_def significand_def split: if_splits)
    then have "is_normal (round32 (s \<noteq> t) m x)" using assms by (simp add: in_range_def prod)
    then show ?thesis unfolding abs_exact unfolding prod exact by (rule round32_error)
  qed
  show "is_finite (fmul a b)"
  proof (cases "m = 0")
    case True
    then show ?thesis by (simp add: prod round32_def)
  next
    case False
    then have "\<not> is_zero a" "\<not> is_zero b" by (auto simp add: a b m_def significand_def split: if_splits)
    then have "is_normal (fmul a b)" using assms by (simp add: in_range_def)
    then show ?thesis by (cases "fmul a b") simp_all
  qed
qed

lemma fmul_rel_error:
  assumes "in_range a b"
  shows "\<bar>valof (fmul a b) - valof a * valof b\<bar> \<le> (1 / (2 ^ 24 - 1)) * \<bar>valof a * valof b\<bar>"
  using fmul_error(1) [OF assms] by (simp add: field_simps)

lemma two_roundings:
  fixes x k g xk A e :: real
  assumes "\<bar>xk - x * k\<bar> \<le> e * \<bar>x * k\<bar>" and "\<bar>A - xk * g\<bar> \<le> e * \<bar>xk * g\<bar>" and "0 \<le> e"
  shows "\<bar>A - x * k * g\<bar> \<le> (2 * e + e * e) * \<bar>x * k * g\<bar>"
proof -
  have "\<bar>xk\<bar> \<le> \<bar>x * k\<bar> + \<bar>xk - x * k\<bar>" by linarith
  also have "\<dots> \<le> (1 + e) * \<bar>x * k\<bar>" using assms(1) by (simp add: algebra_simps)
  finally have "\<bar>xk\<bar> * \<bar>g\<bar> \<le> (1 + e) * \<bar>x * k\<bar> * \<bar>g\<bar>"
    by (intro mult_right_mono) simp_all
  then have xkg: "\<bar>xk * g\<bar> \<le> (1 + e) * \<bar>x * k * g\<bar>" by (simp add: abs_mult mult.assoc)
  have "\<bar>xk - x * k\<bar> * \<bar>g\<bar> \<le> e * \<bar>x * k\<bar> * \<bar>g\<bar>"
    using assms(1) by (intro mult_right_mono) simp_all
  moreover have "\<bar>xk * g - x * k * g\<bar> = \<bar>xk - x * k\<bar> * \<bar>g\<bar>"
    by (simp add: abs_mult flip: left_diff_distrib)
  ultimately have second: "\<bar>xk * g - x * k * g\<bar> \<le> e * \<bar>x * k * g\<bar>"
    by (simp add: abs_mult mult.assoc)
  have "e * \<bar>xk * g\<bar> \<le> e * ((1 + e) * \<bar>x * k * g\<bar>)"
    using xkg assms(3) by (rule mult_left_mono)
  then have first: "\<bar>A - xk * g\<bar> \<le> (e + e * e) * \<bar>x * k * g\<bar>"
    using assms(2) by (simp add: algebra_simps)
  have "\<bar>A - x * k * g\<bar> \<le> \<bar>A - xk * g\<bar> + \<bar>xk * g - x * k * g\<bar>" by linarith
  also have "\<dots> \<le> (e + e * e) * \<bar>x * k * g\<bar> + e * \<bar>x * k * g\<bar>"
    using first second by linarith
  finally show ?thesis by (simp add: algebra_simps)
qed

lemma fmul_twice_error:
  assumes "in_range x k" and "in_range (fmul x k) g"
  shows "\<bar>valof (fmul (fmul x k) g) - valof x * valof k * valof g\<bar>
           \<le> (2 * (1 / (2 ^ 24 - 1)) + (1 / (2 ^ 24 - 1)) * (1 / (2 ^ 24 - 1)))
               * \<bar>valof x * valof k * valof g\<bar>"
  by (rule two_roundings [OF fmul_rel_error [OF assms(1)] fmul_rel_error [OF assms(2)]]) simp

lemma fmul_scale_commute:
  assumes "scale_safe x k g"
  shows "agree_up_to_rounding (fmul (fmul x k) g) (fmul (fmul x g) k)
           (valof x * valof k * valof g)"
proof -
  let ?P = "valof x * valof k * valof g"
  let ?c = "2 * (1 / (2 ^ 24 - 1)) + (1 / (2 ^ 24 - 1)) * (1 / (2 ^ 24 - 1)) :: real"
  from assms have r: "in_range x k" "in_range (fmul x k) g" "in_range x g" "in_range (fmul x g) k"
    by (simp_all add: scale_safe_def)
  have a: "\<bar>valof (fmul (fmul x k) g) - ?P\<bar> \<le> ?c * \<bar>?P\<bar>"
    using r(1,2) by (rule fmul_twice_error)
  have "\<bar>valof (fmul (fmul x g) k) - valof x * valof g * valof k\<bar>
      \<le> ?c * \<bar>valof x * valof g * valof k\<bar>"
    using r(3,4) by (rule fmul_twice_error)
  moreover have "valof x * valof g * valof k = ?P" by simp
  ultimately have b: "\<bar>valof (fmul (fmul x g) k) - ?P\<bar> \<le> ?c * \<bar>?P\<bar>" by simp
  have "\<bar>valof (fmul (fmul x k) g) - valof (fmul (fmul x g) k)\<bar> \<le> 2 * ?c * \<bar>?P\<bar>"
    using a b by linarith
  also have "\<dots> \<le> (1 / 2 ^ 21) * \<bar>?P\<bar>"
    by (intro mult_right_mono) simp_all
  finally have "\<bar>valof (fmul (fmul x k) g) - valof (fmul (fmul x g) k)\<bar> \<le> \<bar>?P\<bar> / 2 ^ 21"
    by simp
  moreover have "is_finite (fmul (fmul x k) g)" using r(2) by (rule fmul_error(2))
  moreover have "is_finite (fmul (fmul x g) k)" using r(4) by (rule fmul_error(2))
  ultimately show ?thesis by (simp add: agree_up_to_rounding_def)
qed

lemma scale_buffer_mem_in:
  "p \<le> a \<Longrightarrow> a < p + len \<Longrightarrow> mem (scale_buffer k p len s) a = fmul (mem s a) k"
  by (simp add: scale_buffer_def)

section \<open>Elementwise correctness\<close>

text \<open>
  C1. Up to \<open>2 ^ 31\<close> samples every destination slot holds the single product of its
  source sample and its gain (\<open>mix_elementwise\<close>). Above that the code does something else,
  because the offset \<open>2 * i\<close> is computed in 32 bits. Take \<open>num_samples = 0x80000004\<close>, the
  source at slot 0, the destination behind it at slot 2147483652, the gains 0.5 and 2.0,
  and a source that holds 2.0 at index \<open>2 ^ 31\<close> and 1.0 everywhere else. The call returns
  with \<open>dst[0] = 1.0\<close>, the product of \<open>src[2 ^ 31]\<close> and the left gain, while
  \<open>src[0] * gain_l\<close> is 0.5.
\<close>

theorem elementwise_wraps_above_2_31:
  "\<exists>s'. mix_mono_to_stereo_intrinsics 0x80000004 2147483652 0 (dyadic 1 (- 1)) (dyadic 2 0) big_state
          = Some (Inr s')
      \<and> mem s' (2147483652 + 2 * 0) = dyadic 1 0
      \<and> fmul (mem big_state (0 + 0)) (dyadic 1 (- 1)) = dyadic 1 (- 1)
      \<and> mem s' (2147483652 + 2 * 0) \<noteq> fmul (mem big_state (0 + 0)) (dyadic 1 (- 1))"
proof -
  let ?s' = "mix_block 2147483652 0 (mm_set1_ps (dyadic 1 (- 1))) (mm_set1_ps (dyadic 2 0)) 0x80000000
      (blocks 536870912 2147483652 0 (mm_set1_ps (dyadic 1 (- 1))) (mm_set1_ps (dyadic 2 0)) 0 big_state)"
  have "mem ?s' (2147483652 + 0)
      = fmul (mem big_state (0 + 2147483648 + 0 div 2)) (if even (0 :: nat) then dyadic 1 (- 1) else dyadic 2 0)"
    by (rule wrap_value) simp_all
  then have "mem ?s' 2147483652 = fmul (dyadic 2 0) (dyadic 1 (- 1))"
    by (simp add: big_state_def)
  then have a: "mem ?s' 2147483652 = dyadic 1 0" by (simp add: float_evals)
  have b: "fmul (mem big_state 0) (dyadic 1 (- 1)) = dyadic 1 (- 1)"
    by (simp add: big_state_def float_evals)
  have c: "dyadic 1 0 \<noteq> dyadic 1 (- 1)" by (simp add: float_evals)
  show ?thesis using a b c by (simp add: wrap_run)
qed

section \<open>The assertion\<close>

text \<open>
  C2. A sample count that is not a multiple of 4 fails the assertion: the call aborts
  with \<open>Assertion_failed\<close> in the state it was entered with, before any load or
  store, so the count is not truncated and no slot is written.
\<close>

theorem assertion_rejects_unaligned_count:
  "num_samples mod 4 \<noteq> 0 \<Longrightarrow>
   mix_mono_to_stereo_intrinsics num_samples dst src gain_l gain_r s
     = Some (Inl (Assertion_failed, s))"
  by (simp add: mix_mono_to_stereo_intrinsics_def)

theorem assertion_rejects_unaligned_count_witness:
  "(5 :: 32 word) mod 4 \<noteq> 0
   \<and> mix_mono_to_stereo_intrinsics 5 4 0 (dyadic 1 (- 1)) (dyadic 2 0) ramp_state
       = Some (Inl (Assertion_failed, ramp_state))"
proof -
  have h: "(5 :: 32 word) mod 4 \<noteq> 0" by simp
  show ?thesis
    using h assertion_rejects_unaligned_count [OF h, of 4 0 "dyadic 1 (- 1)" "dyadic 2 0" ramp_state]
    by blast
qed

section \<open>Zero gain\<close>

text \<open>
  C3, as amended. For a count that is a multiple of 4 and at most \<open>2 ^ 31\<close>, and buffers
  that do not overlap: with \<open>gain_l = 0.0\<close> the left destination element of every finite
  sample is a zero (it compares equal to 0.0), and the left element of an infinite or
  NaN sample is NaN; with \<open>gain_r = 0.0\<close> the same holds of the right elements.
\<close>

theorem zero_gain_finite_zero_else_nan:
  assumes "num_samples mod 4 = 0" and "unat num_samples \<le> 2 ^ 31"
      and "src + unat num_samples \<le> dst \<or> dst + 2 * unat num_samples \<le> src"
  shows "\<exists>s'. mix_mono_to_stereo_intrinsics num_samples dst src gain_l gain_r s = Some (Inr s')
      \<and> (gain_l = Fin False 0 0 \<longrightarrow>
           (\<forall>i < unat num_samples.
              (is_finite (mem s (src + i)) \<longrightarrow> is_zero (mem s' (dst + 2 * i)))
            \<and> (\<not> is_finite (mem s (src + i)) \<longrightarrow> mem s' (dst + 2 * i) = NaN)))
      \<and> (gain_r = Fin False 0 0 \<longrightarrow>
           (\<forall>i < unat num_samples.
              (is_finite (mem s (src + i)) \<longrightarrow> is_zero (mem s' (dst + 2 * i + 1)))
            \<and> (\<not> is_finite (mem s (src + i)) \<longrightarrow> mem s' (dst + 2 * i + 1) = NaN)))"
proof -
  from mix_elementwise [OF assms, of gain_l gain_r s] obtain s' where
    r: "mix_mono_to_stereo_intrinsics num_samples dst src gain_l gain_r s = Some (Inr s')"
    and v: "\<And>i. i < unat num_samples \<Longrightarrow>
              mem s' (dst + 2 * i) = fmul (mem s (src + i)) gain_l
            \<and> mem s' (dst + 2 * i + 1) = fmul (mem s (src + i)) gain_r"
    by blast
  show ?thesis
    using r v by (auto simp add: fmul_zero_finite fmul_zero_not_finite)
qed

theorem zero_gain_finite_zero_else_nan_witness:
  "(4 :: 32 word) mod 4 = 0 \<and> unat (4 :: 32 word) \<le> 2 ^ 31
   \<and> (0 + unat (4 :: 32 word) \<le> 4 \<or> 4 + 2 * unat (4 :: 32 word) \<le> 0)
   \<and> (\<exists>s'. mix_mono_to_stereo_intrinsics 4 4 0 (Fin False 0 0) (Fin False 0 0) special_state
              = Some (Inr s')
        \<and> is_finite (mem special_state (0 + 1))
        \<and> is_zero (mem s' (4 + 2 * 1)) \<and> is_zero (mem s' (4 + 2 * 1 + 1))
        \<and> \<not> is_finite (mem special_state (0 + 2))
        \<and> mem s' (4 + 2 * 2) = NaN \<and> mem s' (4 + 2 * 2 + 1) = NaN)"
proof -
  have h: "(4 :: 32 word) mod 4 = 0" "unat (4 :: 32 word) \<le> 2 ^ 31"
    "0 + unat (4 :: 32 word) \<le> 4 \<or> 4 + 2 * unat (4 :: 32 word) \<le> 0"
    by simp_all
  from zero_gain_finite_zero_else_nan [OF h, of "Fin False 0 0" "Fin False 0 0" special_state] obtain s' where
    r: "mix_mono_to_stereo_intrinsics 4 4 0 (Fin False 0 0) (Fin False 0 0) special_state = Some (Inr s')"
    and l: "\<forall>i < unat (4 :: 32 word).
              (is_finite (mem special_state (0 + i)) \<longrightarrow> is_zero (mem s' (4 + 2 * i)))
            \<and> (\<not> is_finite (mem special_state (0 + i)) \<longrightarrow> mem s' (4 + 2 * i) = NaN)"
    and g: "\<forall>i < unat (4 :: 32 word).
              (is_finite (mem special_state (0 + i)) \<longrightarrow> is_zero (mem s' (4 + 2 * i + 1)))
            \<and> (\<not> is_finite (mem special_state (0 + i)) \<longrightarrow> mem s' (4 + 2 * i + 1) = NaN)"
    by blast
  have f: "is_finite (mem special_state (0 + 1))" "\<not> is_finite (mem special_state (0 + 2))"
    by (simp_all add: special_state_def)
  have "is_zero (mem s' (4 + 2 * 1))" "is_zero (mem s' (4 + 2 * 1 + 1))"
    using l [rule_format, of 1] g [rule_format, of 1] f(1) by simp_all
  moreover have "mem s' (4 + 2 * 2) = NaN" "mem s' (4 + 2 * 2 + 1) = NaN"
    using l [rule_format, of 2] g [rule_format, of 2] f(2) by simp_all
  ultimately show ?thesis using h r f by blast
qed

text \<open>
  As stated, with a zero for every sample whatever the source holds, the property fails:
  the third sample of \<open>special_state\<close> is plus infinity, and with both gains 0.0 its left
  destination element \<open>dst[4]\<close> is NaN.
\<close>

theorem zero_gain_infinity_counterexample:
  "returned_mem (mix_mono_to_stereo_intrinsics 4 4 0 (Fin False 0 0) (Fin False 0 0) special_state)
     (4 + 2 * 2) = Some NaN
   \<and> \<not> is_zero NaN"
  by (simp add: returned_mem_def mix_four mix_four_mem special_state_def significand_def)

section \<open>Identity gain\<close>

text \<open>
  C4. Up to \<open>2 ^ 31\<close> samples, gains of 1.0 copy every sample into both channels
  (\<open>mix_identity_gain\<close>). Above that the code does something else, for the reason given
  at C1: with \<open>num_samples = 0x80000004\<close>, both gains 1.0 and the source of \<open>big_state\<close>, the
  call returns with \<open>dst[0] = 2.0\<close>, the sample at index \<open>2 ^ 31\<close>, while \<open>src[0]\<close> is 1.0.
\<close>

theorem identity_gain_wraps_above_2_31:
  "\<exists>s'. mix_mono_to_stereo_intrinsics 0x80000004 2147483652 0 (dyadic 1 0) (dyadic 1 0) big_state
          = Some (Inr s')
      \<and> mem s' (2147483652 + 2 * 0) = dyadic 2 0
      \<and> mem big_state (0 + 0) = dyadic 1 0
      \<and> mem s' (2147483652 + 2 * 0) \<noteq> mem big_state (0 + 0)"
proof -
  let ?s' = "mix_block 2147483652 0 (mm_set1_ps (dyadic 1 0)) (mm_set1_ps (dyadic 1 0)) 0x80000000
      (blocks 536870912 2147483652 0 (mm_set1_ps (dyadic 1 0)) (mm_set1_ps (dyadic 1 0)) 0 big_state)"
  have "mem ?s' (2147483652 + 0)
      = fmul (mem big_state (0 + 2147483648 + 0 div 2)) (if even (0 :: nat) then dyadic 1 0 else dyadic 1 0)"
    by (rule wrap_value) simp_all
  then have "mem ?s' 2147483652 = fmul (dyadic 2 0) (dyadic 1 0)"
    by (simp add: big_state_def)
  then have a: "mem ?s' 2147483652 = dyadic 2 0" by (simp add: float_evals)
  have b: "mem big_state 0 = dyadic 1 0" by (simp add: big_state_def)
  have c: "dyadic 2 0 \<noteq> dyadic 1 0" by (simp add: float_evals)
  show ?thesis using a b c by (simp add: wrap_run)
qed

section \<open>Scale invariance\<close>

text \<open>
  C5, as amended. For a count that is a multiple of 4 and at most \<open>2 ^ 31\<close>, buffers that
  do not overlap, and finite samples, gains and constant \<open>k\<close> such that none of the products
  involved overflows or underflows (\<open>scale_safe\<close>): scaling the source by \<open>k\<close> and mixing,
  and mixing and then scaling the destination by \<open>k\<close>, give finite destination elements
  that differ by at most \<open>2 ^ - 21\<close> of the exact product of sample, \<open>k\<close> and gain.
  The two need not be equal: for the sample 0.1, \<open>k = 0.3\<close> and the gain 0.7, each rounded
  to binary32, they differ in the last bit.
\<close>

theorem scale_commutes_within_rounding:
  assumes "num_samples mod 4 = 0" and "unat num_samples \<le> 2 ^ 31"
      and "src + unat num_samples \<le> dst \<or> dst + 2 * unat num_samples \<le> src"
      and "\<forall>i < unat num_samples.
             scale_safe (mem s (src + i)) k gain_l \<and> scale_safe (mem s (src + i)) k gain_r"
  shows "\<exists>sa sb.
        mix_mono_to_stereo_intrinsics num_samples dst src gain_l gain_r
          (scale_buffer k src (unat num_samples) s) = Some (Inr sa)
      \<and> mix_mono_to_stereo_intrinsics num_samples dst src gain_l gain_r s = Some (Inr sb)
      \<and> (\<forall>i < unat num_samples.
            agree_up_to_rounding
              (mem sa (dst + 2 * i))
              (mem (scale_buffer k dst (2 * unat num_samples) sb) (dst + 2 * i))
              (valof (mem s (src + i)) * valof k * valof gain_l)
          \<and> agree_up_to_rounding
              (mem sa (dst + 2 * i + 1))
              (mem (scale_buffer k dst (2 * unat num_samples) sb) (dst + 2 * i + 1))
              (valof (mem s (src + i)) * valof k * valof gain_r))"
proof -
  let ?n = "unat num_samples"
  from mix_elementwise [OF assms(1-3), of gain_l gain_r "scale_buffer k src ?n s"] obtain sa where
    ra: "mix_mono_to_stereo_intrinsics num_samples dst src gain_l gain_r (scale_buffer k src ?n s)
           = Some (Inr sa)"
    and va: "\<And>i. i < ?n \<Longrightarrow>
              mem sa (dst + 2 * i) = fmul (mem (scale_buffer k src ?n s) (src + i)) gain_l
            \<and> mem sa (dst + 2 * i + 1) = fmul (mem (scale_buffer k src ?n s) (src + i)) gain_r"
    by blast
  from mix_elementwise [OF assms(1-3), of gain_l gain_r s] obtain sb where
    rb: "mix_mono_to_stereo_intrinsics num_samples dst src gain_l gain_r s = Some (Inr sb)"
    and vb: "\<And>i. i < ?n \<Longrightarrow>
              mem sb (dst + 2 * i) = fmul (mem s (src + i)) gain_l
            \<and> mem sb (dst + 2 * i + 1) = fmul (mem s (src + i)) gain_r"
    by blast
  have "agree_up_to_rounding (mem sa (dst + 2 * i))
          (mem (scale_buffer k dst (2 * ?n) sb) (dst + 2 * i))
          (valof (mem s (src + i)) * valof k * valof gain_l)
      \<and> agree_up_to_rounding (mem sa (dst + 2 * i + 1))
          (mem (scale_buffer k dst (2 * ?n) sb) (dst + 2 * i + 1))
          (valof (mem s (src + i)) * valof k * valof gain_r)"
    if i: "i < ?n" for i
  proof -
    let ?x = "mem s (src + i)"
    have x: "mem (scale_buffer k src ?n s) (src + i) = fmul ?x k"
      using i by (intro scale_buffer_mem_in) simp_all
    have l: "mem (scale_buffer k dst (2 * ?n) sb) (dst + 2 * i) = fmul (mem sb (dst + 2 * i)) k"
      using i by (intro scale_buffer_mem_in) simp_all
    have r: "mem (scale_buffer k dst (2 * ?n) sb) (dst + 2 * i + 1) = fmul (mem sb (dst + 2 * i + 1)) k"
      using i by (intro scale_buffer_mem_in) simp_all
    have safe: "scale_safe ?x k gain_l" "scale_safe ?x k gain_r" using assms(4) i by simp_all
    show ?thesis
      unfolding l r using va [OF i] vb [OF i] x
        fmul_scale_commute [OF safe(1)] fmul_scale_commute [OF safe(2)]
      by simp
  qed
  then show ?thesis using ra rb by blast
qed

theorem scale_commutes_within_rounding_witness:
  "(4 :: 32 word) mod 4 = 0 \<and> unat (4 :: 32 word) \<le> 2 ^ 31
   \<and> (0 + unat (4 :: 32 word) \<le> 4 \<or> 4 + 2 * unat (4 :: 32 word) \<le> 0)
   \<and> scale_safe (mem tenth_state (0 + 0)) (Fin False 125 1677722) (Fin False 126 3355443)
   \<and> scale_safe (mem tenth_state (0 + 1)) (Fin False 125 1677722) (Fin False 126 3355443)
   \<and> scale_safe (mem tenth_state (0 + 2)) (Fin False 125 1677722) (Fin False 126 3355443)
   \<and> scale_safe (mem tenth_state (0 + 3)) (Fin False 125 1677722) (Fin False 126 3355443)
   \<and> (\<exists>sa sb.
        mix_mono_to_stereo_intrinsics 4 4 0 (Fin False 126 3355443) (Fin False 126 3355443)
          (scale_buffer (Fin False 125 1677722) 0 (unat (4 :: 32 word)) tenth_state) = Some (Inr sa)
      \<and> mix_mono_to_stereo_intrinsics 4 4 0 (Fin False 126 3355443) (Fin False 126 3355443) tenth_state
          = Some (Inr sb)
      \<and> mem sa (4 + 2 * 0) = Fin False 121 2885681
      \<and> mem (scale_buffer (Fin False 125 1677722) 4 (2 * unat (4 :: 32 word)) sb) (4 + 2 * 0)
          = Fin False 121 2885682
      \<and> agree_up_to_rounding
              (mem sa (4 + 2 * 0))
              (mem (scale_buffer (Fin False 125 1677722) 4 (2 * unat (4 :: 32 word)) sb) (4 + 2 * 0))
              (valof (mem tenth_state (0 + 0)) * valof (Fin False 125 1677722)
                 * valof (Fin False 126 3355443)))"
proof -
  let ?k = "Fin False 125 1677722"
  let ?g = "Fin False 126 3355443"
  have h: "(4 :: 32 word) mod 4 = 0" "unat (4 :: 32 word) \<le> 2 ^ 31"
    "0 + unat (4 :: 32 word) \<le> 4 \<or> 4 + 2 * unat (4 :: 32 word) \<le> 0"
    by simp_all
  have s: "scale_safe (mem tenth_state (0 + i)) ?k ?g" for i
    by (simp add: scale_safe_def in_range_def tenth_state_def float_evals)
  then have a: "\<forall>i < unat (4 :: 32 word).
      scale_safe (mem tenth_state (0 + i)) ?k ?g \<and> scale_safe (mem tenth_state (0 + i)) ?k ?g"
    by simp
  from scale_commutes_within_rounding [OF h a] obtain sa sb where
    r: "mix_mono_to_stereo_intrinsics 4 4 0 ?g ?g
          (scale_buffer ?k 0 (unat (4 :: 32 word)) tenth_state) = Some (Inr sa)"
       "mix_mono_to_stereo_intrinsics 4 4 0 ?g ?g tenth_state = Some (Inr sb)"
    and g: "\<forall>i < unat (4 :: 32 word).
            agree_up_to_rounding
              (mem sa (4 + 2 * i))
              (mem (scale_buffer ?k 4 (2 * unat (4 :: 32 word)) sb) (4 + 2 * i))
              (valof (mem tenth_state (0 + i)) * valof ?k * valof ?g)
          \<and> agree_up_to_rounding
              (mem sa (4 + 2 * i + 1))
              (mem (scale_buffer ?k 4 (2 * unat (4 :: 32 word)) sb) (4 + 2 * i + 1))
              (valof (mem tenth_state (0 + i)) * valof ?k * valof ?g)"
    by blast
  have first: "fmul (fmul (Fin False 123 5033165) ?k) ?g = Fin False 121 2885681"
    by (simp add: float_evals)
  have last: "fmul (fmul (Fin False 123 5033165) ?g) ?k = Fin False 121 2885682"
    by (simp add: float_evals)
  have "sa = mix_block 4 0 (mm_set1_ps ?g) (mm_set1_ps ?g) 0
               (scale_buffer ?k 0 (unat (4 :: 32 word)) tenth_state)"
    using r(1) by (simp add: mix_four)
  then have "mem sa (4 + 2 * 0) = fmul (fmul (Fin False 123 5033165) ?k) ?g"
    by (simp add: mix_four_mem scale_buffer_def tenth_state_def)
  then have va: "mem sa (4 + 2 * 0) = Fin False 121 2885681" by (simp only: first)
  have "sb = mix_block 4 0 (mm_set1_ps ?g) (mm_set1_ps ?g) 0 tenth_state"
    using r(2) by (simp add: mix_four)
  then have "mem (scale_buffer ?k 4 (2 * unat (4 :: 32 word)) sb) (4 + 2 * 0)
      = fmul (fmul (Fin False 123 5033165) ?g) ?k"
    by (simp add: mix_four_mem scale_buffer_def tenth_state_def)
  then have vb: "mem (scale_buffer ?k 4 (2 * unat (4 :: 32 word)) sb) (4 + 2 * 0)
      = Fin False 121 2885682" by (simp only: last)
  have "agree_up_to_rounding
              (mem sa (4 + 2 * 0))
              (mem (scale_buffer ?k 4 (2 * unat (4 :: 32 word)) sb) (4 + 2 * 0))
              (valof (mem tenth_state (0 + 0)) * valof ?k * valof ?g)"
    using g [rule_format, of 0] by simp
  then show ?thesis using h s r va vb by blast
qed

text \<open>
  As stated, for all gains and every constant, the property fails where a product
  overflows: with every sample the largest finite number, both gains 2.0 and \<open>k = 0.5\<close>,
  scaling first gives the largest finite number in \<open>dst[0]\<close>, scaling last gives infinity.
\<close>

theorem scale_overflow_counterexample:
  "returned_mem (mix_mono_to_stereo_intrinsics 4 4 0 (dyadic 2 0) (dyadic 2 0)
                   (scale_buffer (dyadic 1 (- 1)) 0 4 max_state)) (4 + 2 * 0)
     = Some (Fin False 254 8388607)
   \<and> returned_mem (then_scale (dyadic 1 (- 1)) 4 (2 * 4)
                   (mix_mono_to_stereo_intrinsics 4 4 0 (dyadic 2 0) (dyadic 2 0) max_state)) (4 + 2 * 0)
     = Some (Inf False)
   \<and> \<not> agree_up_to_rounding (Fin False 254 8388607) (Inf False)
         (valof (mem max_state 0) * valof (dyadic 1 (- 1)) * valof (dyadic 2 0))"
proof -
  have a: "fmul (fmul (Fin False 254 8388607) (dyadic 1 (- 1))) (dyadic 2 0) = Fin False 254 8388607"
    by (simp add: float_evals)
  have b: "fmul (fmul (Fin False 254 8388607) (dyadic 2 0)) (dyadic 1 (- 1)) = Inf False"
    by (simp add: float_evals)
  have "returned_mem (mix_mono_to_stereo_intrinsics 4 4 0 (dyadic 2 0) (dyadic 2 0)
                   (scale_buffer (dyadic 1 (- 1)) 0 4 max_state)) (4 + 2 * 0)
      = Some (fmul (fmul (Fin False 254 8388607) (dyadic 1 (- 1))) (dyadic 2 0))"
    by (simp add: returned_mem_def mix_four mix_four_mem scale_buffer_def max_state_def)
  moreover have "returned_mem (then_scale (dyadic 1 (- 1)) 4 (2 * 4)
                   (mix_mono_to_stereo_intrinsics 4 4 0 (dyadic 2 0) (dyadic 2 0) max_state)) (4 + 2 * 0)
      = Some (fmul (fmul (Fin False 254 8388607) (dyadic 2 0)) (dyadic 1 (- 1)))"
    by (simp add: returned_mem_def then_scale_def mix_four mix_four_mem scale_buffer_def max_state_def)
  ultimately show ?thesis
    unfolding a b by (simp add: agree_up_to_rounding_def)
qed

section \<open>The smallest block\<close>

text \<open>
  C6. With \<open>num_samples = 4\<close> the call returns after one pass. It stores to the eight
  destination slots \<open>dst[0]\<close> to \<open>dst[7]\<close> and to no other, once each: the products of the
  four samples with the left and with the right gain, interleaved. For a source of
  1.0, 2.0, 3.0, 4.0 and the gains 0.5 and 2.0 the destination becomes
  0.5, 2.0, 1.0, 4.0, 1.5, 6.0, 2.0, 8.0.
\<close>

theorem minimum_block_example:
  "\<exists>s'. mix_mono_to_stereo_intrinsics 4 dst src gain_l gain_r s = Some (Inr s')
      \<and> buffer s' dst 8
          = [fmul (mem s src) gain_l, fmul (mem s src) gain_r,
             fmul (mem s (src + 1)) gain_l, fmul (mem s (src + 1)) gain_r,
             fmul (mem s (src + 2)) gain_l, fmul (mem s (src + 2)) gain_r,
             fmul (mem s (src + 3)) gain_l, fmul (mem s (src + 3)) gain_r]
      \<and> stores s' = stores s @ [dst, dst + 1, dst + 2, dst + 3, dst + 4, dst + 5, dst + 6, dst + 7]
      \<and> (buffer s src 4 = [dyadic 1 0, dyadic 2 0, dyadic 3 0, dyadic 4 0]
           \<and> gain_l = dyadic 1 (- 1) \<and> gain_r = dyadic 2 0
         \<longrightarrow> buffer s' dst 8 = [dyadic 1 (- 1), dyadic 2 0, dyadic 1 0, dyadic 4 0,
                               dyadic 3 (- 1), dyadic 6 0, dyadic 2 0, dyadic 8 0])"
proof -
  let ?s' = "mix_block dst src (mm_set1_ps gain_l) (mm_set1_ps gain_r) 0 s"
  have b: "buffer ?s' dst 8
      = [fmul (mem s src) gain_l, fmul (mem s src) gain_r,
         fmul (mem s (src + 1)) gain_l, fmul (mem s (src + 1)) gain_r,
         fmul (mem s (src + 2)) gain_l, fmul (mem s (src + 2)) gain_r,
         fmul (mem s (src + 3)) gain_l, fmul (mem s (src + 3)) gain_r]"
    unfolding buffer_def mix_four_mem upt_eight [of 0, simplified] by simp
  have w: "stores ?s' = stores s @ [dst, dst + 1, dst + 2, dst + 3, dst + 4, dst + 5, dst + 6, dst + 7]"
    by (simp add: mix_block_stores add.assoc)
  have prods: "fmul (dyadic 1 0) (dyadic 1 (- 1)) = dyadic 1 (- 1)"
    "fmul (dyadic 1 0) (dyadic 2 0) = dyadic 2 0"
    "fmul (dyadic 2 0) (dyadic 1 (- 1)) = dyadic 1 0"
    "fmul (dyadic 2 0) (dyadic 2 0) = dyadic 4 0"
    "fmul (dyadic 3 0) (dyadic 1 (- 1)) = dyadic 3 (- 1)"
    "fmul (dyadic 3 0) (dyadic 2 0) = dyadic 6 0"
    "fmul (dyadic 4 0) (dyadic 1 (- 1)) = dyadic 2 0"
    "fmul (dyadic 4 0) (dyadic 2 0) = dyadic 8 0"
    by (simp_all add: float_evals)
  have e: "buffer ?s' dst 8 = [dyadic 1 (- 1), dyadic 2 0, dyadic 1 0, dyadic 4 0,
                               dyadic 3 (- 1), dyadic 6 0, dyadic 2 0, dyadic 8 0]"
    if "buffer s src 4 = [dyadic 1 0, dyadic 2 0, dyadic 3 0, dyadic 4 0]"
      and "gain_l = dyadic 1 (- 1)" and "gain_r = dyadic 2 0"
  proof -
    have src: "mem s src = dyadic 1 0" "mem s (src + 1) = dyadic 2 0"
      "mem s (src + 2) = dyadic 3 0" "mem s (src + 3) = dyadic 4 0"
      using that(1) by (simp_all add: buffer_def upt_four [of 0, simplified])
    show ?thesis using b unfolding that(2,3) src prods .
  qed
  show ?thesis unfolding mix_four using b w e by blast
qed

theorem minimum_block_example_witness:
  "buffer ramp_state 0 4 = [dyadic 1 0, dyadic 2 0, dyadic 3 0, dyadic 4 0]
   \<and> (\<exists>s'. mix_mono_to_stereo_intrinsics 4 4 0 (dyadic 1 (- 1)) (dyadic 2 0) ramp_state = Some (Inr s')
      \<and> buffer s' 4 8 = [dyadic 1 (- 1), dyadic 2 0, dyadic 1 0, dyadic 4 0,
                          dyadic 3 (- 1), dyadic 6 0, dyadic 2 0, dyadic 8 0]
      \<and> stores s' = stores ramp_state @ [4, 4 + 1, 4 + 2, 4 + 3, 4 + 4, 4 + 5, 4 + 6, 4 + 7])"
proof -
  have h: "buffer ramp_state 0 4 = [dyadic 1 0, dyadic 2 0, dyadic 3 0, dyadic 4 0]"
    by (simp add: buffer_def ramp_state_def upt_four [of 0, simplified])
  from minimum_block_example [of 4 0 "dyadic 1 (- 1)" "dyadic 2 0" ramp_state] obtain s' where
    r: "mix_mono_to_stereo_intrinsics 4 4 0 (dyadic 1 (- 1)) (dyadic 2 0) ramp_state = Some (Inr s')"
    and w: "stores s' = stores ramp_state @ [4, 4 + 1, 4 + 2, 4 + 3, 4 + 4, 4 + 5, 4 + 6, 4 + 7]"
    and e: "buffer ramp_state 0 4 = [dyadic 1 0, dyadic 2 0, dyadic 3 0, dyadic 4 0]
           \<and> dyadic 1 (- 1) = dyadic 1 (- 1) \<and> dyadic 2 0 = dyadic 2 0
         \<longrightarrow> buffer s' 4 8 = [dyadic 1 (- 1), dyadic 2 0, dyadic 1 0, dyadic 4 0,
                               dyadic 3 (- 1), dyadic 6 0, dyadic 2 0, dyadic 8 0]"
    by blast
  have "buffer s' 4 8 = [dyadic 1 (- 1), dyadic 2 0, dyadic 1 0, dyadic 4 0,
                               dyadic 3 (- 1), dyadic 6 0, dyadic 2 0, dyadic 8 0]"
    using e h by blast
  then show ?thesis using h r w by blast
qed

section \<open>The source buffer\<close>

text \<open>
  C7. For a count that is a multiple of 4 and buffers that do not overlap, the call
  returns with every element of the source as it was, and none of its stores goes to
  a source slot.
\<close>

theorem source_buffer_unchanged:
  assumes "num_samples mod 4 = 0"
      and "src + unat num_samples \<le> dst \<or> dst + 2 * unat num_samples \<le> src"
  shows "\<exists>s'. mix_mono_to_stereo_intrinsics num_samples dst src gain_l gain_r s = Some (Inr s')
        \<and> (\<forall>i < unat num_samples. mem s' (src + i) = mem s (src + i))
        \<and> (\<forall>i < unat num_samples. src + i \<in> set (stores s') \<longrightarrow> src + i \<in> set (stores s))"
proof -
  let ?k = "unat num_samples div 4"
  let ?s' = "blocks ?k dst src (mm_set1_ps gain_l) (mm_set1_ps gain_r) 0 s"
  have m: "unat num_samples mod 4 = 0" using assms(1) by (simp add: mod4_unat)
  then have k: "unat (0 :: 32 word) + 4 * ?k = unat num_samples" by simp presburger
  have z: "unat (0 :: 32 word) mod 4 = 0" by simp
  have "mem ?s' (src + i) = mem s (src + i)" if "i < unat num_samples" for i
  proof (rule blocks_frame_any [OF z m k])
    show "src + i < dst \<or> dst + 2 * unat num_samples \<le> src + i"
      using assms(2) that by linarith
  qed
  moreover have "src + i \<in> set (stores s)"
    if "i < unat num_samples" "src + i \<in> set (stores ?s')" for i
  proof -
    have "src + i \<notin> {dst ..< dst + 2 * unat num_samples}" using assms(2) that(1) by auto
    then show ?thesis using blocks_stores_within [OF z m k, of dst src _ _ s] that(2) by blast
  qed
  ultimately show ?thesis by (simp add: mix_returns [OF assms(1)])
qed

theorem source_buffer_unchanged_witness:
  "(4 :: 32 word) mod 4 = 0
   \<and> (0 + unat (4 :: 32 word) \<le> 4 \<or> 4 + 2 * unat (4 :: 32 word) \<le> 0)
   \<and> (\<exists>s'. mix_mono_to_stereo_intrinsics 4 4 0 (dyadic 1 (- 1)) (dyadic 2 0) ramp_state = Some (Inr s')
        \<and> mem s' (0 + 2) = mem ramp_state (0 + 2)
        \<and> 0 + 2 \<notin> set (stores s'))"
proof -
  have h: "(4 :: 32 word) mod 4 = 0"
    "0 + unat (4 :: 32 word) \<le> 4 \<or> 4 + 2 * unat (4 :: 32 word) \<le> 0"
    by simp_all
  from source_buffer_unchanged [OF h, of "dyadic 1 (- 1)" "dyadic 2 0" ramp_state] obtain s' where
    r: "mix_mono_to_stereo_intrinsics 4 4 0 (dyadic 1 (- 1)) (dyadic 2 0) ramp_state = Some (Inr s')"
    and u: "\<forall>i < unat (4 :: 32 word). mem s' (0 + i) = mem ramp_state (0 + i)"
    and w: "\<forall>i < unat (4 :: 32 word). 0 + i \<in> set (stores s') \<longrightarrow> 0 + i \<in> set (stores ramp_state)"
    by blast
  have "mem s' (0 + 2) = mem ramp_state (0 + 2)" using u [rule_format, of 2] by simp
  moreover have "0 + 2 \<notin> set (stores s')"
    using w [rule_format, of 2] by (auto simp add: ramp_state_def)
  ultimately show ?thesis using h r by blast
qed

section \<open>Termination\<close>

text \<open>
  C8. For a count that is a multiple of 4 the call returns, after exactly
  \<open>num_samples / 4\<close> passes of the loop body. The body consists of the load, multiply,
  unpack and store intrinsics only, so the memory is all a call can affect.
\<close>

theorem mix_terminates_after_all_blocks:
  "num_samples mod 4 = 0 \<Longrightarrow>
   \<exists>s'. mix_mono_to_stereo_intrinsics num_samples dst src gain_l gain_r s = Some (Inr s')
        \<and> iters s' = iters s + unat num_samples div 4"
  by (simp add: mix_returns blocks_iters)

theorem mix_terminates_after_all_blocks_witness:
  "(8 :: 32 word) mod 4 = 0
   \<and> (\<exists>s'. mix_mono_to_stereo_intrinsics 8 8 0 (dyadic 1 (- 1)) (dyadic 2 0) ramp_state = Some (Inr s')
        \<and> iters s' = iters ramp_state + unat (8 :: 32 word) div 4)"
proof -
  have h: "(8 :: 32 word) mod 4 = 0" by simp
  show ?thesis using h mix_terminates_after_all_blocks [OF h, of 8 0 "dyadic 1 (- 1)" "dyadic 2 0" ramp_state] by blast
qed

section \<open>The empty call\<close>

text \<open>
  C9. A count of 0 passes the assertion, runs no pass of the loop and returns the state
  it was given: no slot is loaded, no slot is stored, every element of the destination
  is as before.
\<close>

theorem zero_samples_returns_state_unchanged:
  "mix_mono_to_stereo_intrinsics 0 dst src gain_l gain_r s = Some (Inr s)"
  unfolding mix_mono_to_stereo_intrinsics_def
  by (subst mix_loop.simps) simp

section \<open>The footprint\<close>

text \<open>
  C10. Whatever the count, the call loads the source slots \<open>0\<close> to \<open>num_samples - 1\<close> and
  no other (\<open>mix_loads\<close>), and no store leaves the destination slots \<open>0\<close> to
  \<open>2 * num_samples - 1\<close> (\<open>mix_stores_within\<close>). Up to \<open>2 ^ 31\<close> samples each of these
  destination slots is stored to once (\<open>mix_footprint\<close>). Above \<open>2 ^ 31\<close> samples that
  fails, for the reason given at C1: with \<open>num_samples = 0x80000004\<close> the call stores twice
  to \<open>dst[0]\<close> and never to \<open>dst[2 ^ 32]\<close>, a slot below \<open>2 * num_samples\<close>.
\<close>

theorem destination_written_twice_above_2_31:
  "\<exists>s'. mix_mono_to_stereo_intrinsics 0x80000004 2147483652 0 (dyadic 1 0) (dyadic 1 0) big_state
          = Some (Inr s')
      \<and> count_list (stores s') (2147483652 + 0) = 2
      \<and> 2147483652 + 4294967296 \<notin> set (stores s')
      \<and> (4294967296 :: nat) < 2 * unat (0x80000004 :: 32 word)"
proof -
  let ?s' = "mix_block 2147483652 0 (mm_set1_ps (dyadic 1 0)) (mm_set1_ps (dyadic 1 0)) 0x80000000
      (blocks 536870912 2147483652 0 (mm_set1_ps (dyadic 1 0)) (mm_set1_ps (dyadic 1 0)) 0 big_state)"
  have "count_list (stores ?s') 2147483652 = count_list (stores big_state) 2147483652 + 2"
    by (rule wrap_stores_count)
  then have a: "count_list (stores ?s') 2147483652 = 2" by (simp add: big_state_def)
  have "set (stores ?s') = set (stores big_state) \<union> {2147483652 ..< 2147483652 + 4294967296}"
    by (rule wrap_stores_set)
  then have b: "2147483652 + 4294967296 \<notin> set (stores ?s')" by (simp add: big_state_def)
  show ?thesis using a b by (simp add: wrap_run)
qed

end
